theory Spec2Isabelle
  imports Main "HOL-Library.Word"
begin

section \<open>Lambda expressions as closures\<close>

text \<open>
  The library represents a lambda term as a host closure: class \<open>expression\<close> wraps a
  \<open>std::function<expression(expression)>\<close>. HOL has no type that is its own function
  space, so every lambda expression of the source is one constructor, holding the values
  that the lambda captures (all by copy). \<open>pass_by_value\<close> below runs the body that belongs
  to the constructor.

  \<open>std::size_t\<close> is taken as a 64-bit word.
\<close>

type_synonym size_t = "64 word"

datatype expression =
    \<comment> \<open>\<open>operator()\<close>: \<open>[arg, *this](expression _)\<close>\<close>
    name_call_closure expression expression
    \<comment> \<open>\<open>church_encode\<close>: \<open>[n](expression f)\<close>, \<open>[n, f](expression x)\<close>\<close>
  | church_encode_n size_t
  | church_encode_n_f size_t expression
    \<comment> \<open>\<open>truth\<close>: \<open>[](expression x)\<close>, \<open>[x](expression y)\<close>\<close>
  | truth
  | truth_x expression
    \<comment> \<open>\<open>falsity\<close>: \<open>[](expression x)\<close>, \<open>[](expression y)\<close>\<close>
  | falsity
  | falsity_x
    \<comment> \<open>\<open>Y\<close>: \<open>[](expression f)\<close>, \<open>[f](expression x)\<close>\<close>
  | Y
  | Y_f expression
  | I
  | K
  | K_x expression
  | S
  | S_x expression
  | S_x_y expression expression
  | i
  | succ
  | succ_n expression
  | succ_n_f expression expression
    \<comment> \<open>\<open>pred\<close>: \<open>[](n)\<close>, \<open>[n](f)\<close>, \<open>[n, f](x)\<close>, and inside the last one
        \<open>[f](g)\<close>, \<open>[f, g](h)\<close>, \<open>[x](y)\<close>, \<open>[](y)\<close>\<close>
  | pred
  | pred_n expression
  | pred_n_f expression expression
  | pred_f expression
  | pred_f_g expression expression
  | pred_x expression
  | pred_id
  | add
  | add_n expression
  | sub
  | sub_n expression
  | mult
  | mult_n expression
    \<comment> \<open>\<open>is_zero\<close>: \<open>[](n)\<close> and its argument \<open>[](x)\<close>\<close>
  | is_zero
  | is_zero_x
  | cons
  | cons_a expression
  | cons_a_b expression expression
    \<comment> \<open>\<open>car\<close>: \<open>[](p)\<close> and its selector \<open>[](x)\<close>, \<open>[x](y)\<close>\<close>
  | car
  | car_sel
  | car_sel_x expression
    \<comment> \<open>\<open>cdr\<close>: \<open>[](p)\<close> and its selector \<open>[](x)\<close>, \<open>[](y)\<close>\<close>
  | cdr
  | cdr_sel
  | cdr_sel_x
    \<comment> \<open>\<open>empty_list\<close>: \<open>[](f)\<close>, \<open>[](x)\<close>, \<open>[x](y)\<close>\<close>
  | empty_list
  | empty_list_f
  | empty_list_f_x expression
    \<comment> \<open>\<open>is_empty\<close>: \<open>[](l)\<close> and its selector \<open>[](x)\<close>, \<open>[](y)\<close>\<close>
  | is_empty
  | is_empty_sel
  | is_empty_sel_x
    \<comment> \<open>\<open>church_decode\<close>: \<open>[&decoded](expression x)\<close>\<close>
  | church_decode_counter
    \<comment> \<open>\<open>scott_decode\<close>: \<open>[&result](f)\<close>, \<open>[&result, f](l)\<close>, \<open>[&result, l, f](_)\<close>\<close>
  | output_list
  | output_list_f expression
  | output_list_l_f expression expression

text \<open>
  Two lambdas capture by reference: the counting function of \<open>church_decode\<close> captures
  its local \<open>decoded\<close>, and the lambdas of \<open>scott_decode\<close> capture the output iterator
  \<open>result\<close>. Both are fields of the state that evaluation threads through; writing
  through the output iterator appends to \<open>result\<close>.
\<close>

record eval_state =
  decoded :: size_t
  result :: "expression list"

subsection \<open>Name call\<close>

text \<open>\<open>expression::operator()\<close>: builds the closure and runs nothing.\<close>

definition name_call :: "expression \<Rightarrow> expression \<Rightarrow> expression" where
  "name_call self arg = name_call_closure arg self"

text \<open>
  The loop of \<open>church_encode\<close>: \<open>for (i = 0; i < n; ++i) x = f(x);\<close> with the loop
  counter as first argument.
\<close>

function church_encode_loop :: "size_t \<Rightarrow> size_t \<Rightarrow> expression \<Rightarrow> expression \<Rightarrow> expression" where
  "church_encode_loop j n f x =
     (if j < n then church_encode_loop (j + 1) n f (name_call f x) else x)"
  by pat_completeness auto
termination
proof (relation "measure (\<lambda>(j, n, f, x). unat n - unat j)")
  show "wf (measure (\<lambda>(j, n, f, x). unat n - unat j))"
    by simp
next
  fix j n :: size_t and f x :: expression
  assume less: "j < n"
  have below: "unat j < unat n"
    using less by (simp add: word_less_nat_alt)
  moreover have "unat n < 2 ^ 64"
    using unsigned_less [of n] by simp
  ultimately have "unat j + unat (1::size_t) < 2 ^ LENGTH(64)"
    by simp
  then have "unat (j + 1) = unat j + unat (1::size_t)"
    by (simp only: unat_add_lem)
  with below show "((j + 1, n, f, name_call f x), (j, n, f, x))
      \<in> measure (\<lambda>(j, n, f, x). unat n - unat j)"
    by simp
qed

declare church_encode_loop.simps [simp del]

definition church_encode :: "size_t \<Rightarrow> expression" where
  "church_encode n = church_encode_n n"

subsection \<open>Value call\<close>

text \<open>
  \<open>expression::pass_by_value\<close> calls the wrapped function. The call may run forever, so
  the model takes fuel: every value call costs one unit, and \<open>None\<close> means that the fuel
  ran out. Each equation is the body of the lambda its constructor stands for; inside a
  body, \<open>e(a)\<close> is a name call and \<open>e.pass_by_value(a)\<close> a recursive call.
\<close>

fun pass_by_value :: "nat \<Rightarrow> expression \<Rightarrow> expression \<Rightarrow> eval_state \<Rightarrow> (expression \<times> eval_state) option" where
  "pass_by_value 0 e a s = None"
| "pass_by_value (Suc k) (name_call_closure arg self) u s =
     (case pass_by_value k self arg s of
        None \<Rightarrow> None
      | Some (r, s') \<Rightarrow> pass_by_value k r u s')"
| "pass_by_value (Suc k) (church_encode_n n) f s = Some (church_encode_n_f n f, s)"
| "pass_by_value (Suc k) (church_encode_n_f n f) x s = Some (church_encode_loop 0 n f x, s)"
| "pass_by_value (Suc k) truth x s = Some (truth_x x, s)"
| "pass_by_value (Suc k) (truth_x x) y s = Some (x, s)"
| "pass_by_value (Suc k) falsity x s = Some (falsity_x, s)"
| "pass_by_value (Suc k) falsity_x y s = Some (y, s)"
| "pass_by_value (Suc k) Y f s = Some (let x = Y_f f in name_call f (name_call x x), s)"
| "pass_by_value (Suc k) (Y_f f) x s = Some (name_call f (name_call x x), s)"
| "pass_by_value (Suc k) I x s = Some (x, s)"
| "pass_by_value (Suc k) K x s = Some (K_x x, s)"
| "pass_by_value (Suc k) (K_x x) y s = Some (x, s)"
| "pass_by_value (Suc k) S x s = Some (S_x x, s)"
| "pass_by_value (Suc k) (S_x x) y s = Some (S_x_y x y, s)"
| "pass_by_value (Suc k) (S_x_y x y) z s = Some (name_call (name_call x z) (name_call y z), s)"
| "pass_by_value (Suc k) i f s = Some (name_call (name_call f S) K, s)"
| "pass_by_value (Suc k) succ n s = Some (succ_n n, s)"
| "pass_by_value (Suc k) (succ_n n) f s = Some (succ_n_f n f, s)"
| "pass_by_value (Suc k) (succ_n_f n f) x s = Some (name_call f (name_call (name_call n f) x), s)"
| "pass_by_value (Suc k) pred n s = Some (pred_n n, s)"
| "pass_by_value (Suc k) (pred_n n) f s = Some (pred_n_f n f, s)"
| "pass_by_value (Suc k) (pred_n_f n f) x s =
     Some (name_call (name_call (name_call n (pred_f f)) (pred_x x)) pred_id, s)"
| "pass_by_value (Suc k) (pred_f f) g s = Some (pred_f_g f g, s)"
| "pass_by_value (Suc k) (pred_f_g f g) h s = Some (name_call h (name_call g f), s)"
| "pass_by_value (Suc k) (pred_x x) y s = Some (x, s)"
| "pass_by_value (Suc k) pred_id y s = Some (y, s)"
| "pass_by_value (Suc k) add n s = Some (add_n n, s)"
| "pass_by_value (Suc k) (add_n n) m s = Some (name_call (name_call n succ) m, s)"
| "pass_by_value (Suc k) sub n s = Some (sub_n n, s)"
| "pass_by_value (Suc k) (sub_n n) m s = Some (name_call (name_call m pred) n, s)"
| "pass_by_value (Suc k) mult n s = Some (mult_n n, s)"
| "pass_by_value (Suc k) (mult_n n) m s =
     Some (name_call (name_call n (name_call add m)) (church_encode 0), s)"
| "pass_by_value (Suc k) is_zero n s = Some (name_call (name_call n is_zero_x) truth, s)"
| "pass_by_value (Suc k) is_zero_x x s = Some (falsity, s)"
| "pass_by_value (Suc k) cons a s = Some (cons_a a, s)"
| "pass_by_value (Suc k) (cons_a a) b s = Some (cons_a_b a b, s)"
| "pass_by_value (Suc k) (cons_a_b a b) f s = Some (name_call (name_call f a) b, s)"
| "pass_by_value (Suc k) car p s = Some (name_call p car_sel, s)"
| "pass_by_value (Suc k) car_sel x s = Some (car_sel_x x, s)"
| "pass_by_value (Suc k) (car_sel_x x) y s = Some (x, s)"
| "pass_by_value (Suc k) cdr p s = Some (name_call p cdr_sel, s)"
| "pass_by_value (Suc k) cdr_sel x s = Some (cdr_sel_x, s)"
| "pass_by_value (Suc k) cdr_sel_x y s = Some (y, s)"
| "pass_by_value (Suc k) empty_list f s = Some (empty_list_f, s)"
| "pass_by_value (Suc k) empty_list_f x s = Some (empty_list_f_x x, s)"
| "pass_by_value (Suc k) (empty_list_f_x x) y s = Some (x, s)"
| "pass_by_value (Suc k) is_empty l s = Some (name_call l is_empty_sel, s)"
| "pass_by_value (Suc k) is_empty_sel x s = Some (is_empty_sel_x, s)"
| "pass_by_value (Suc k) is_empty_sel_x y s = Some (falsity, s)"
| "pass_by_value (Suc k) church_decode_counter x s = Some (x, s\<lparr>decoded := decoded s + 1\<rparr>)"
| "pass_by_value (Suc k) output_list f s = Some (output_list_f f, s)"
| "pass_by_value (Suc k) (output_list_f f) l s =
     (case pass_by_value k is_empty l s of
        None \<Rightarrow> None
      | Some (r1, s1) \<Rightarrow>
          (case pass_by_value k r1 empty_list s1 of
             None \<Rightarrow> None
           | Some (r2, s2) \<Rightarrow> pass_by_value k r2 (output_list_l_f l f) s2))"
| "pass_by_value (Suc k) (output_list_l_f l f) u s =
     (case pass_by_value k car l s of
        None \<Rightarrow> None
      | Some (c, s1) \<Rightarrow>
          (let s2 = s1\<lparr>result := result s1 @ [c]\<rparr> in
           case pass_by_value k cdr l s2 of
             None \<Rightarrow> None
           | Some (d, s3) \<Rightarrow>
               (case pass_by_value k f d s3 of
                  None \<Rightarrow> None
                | Some (r, s4) \<Rightarrow> pass_by_value k r u s4)))"

subsection \<open>Codec and pipeline\<close>

text \<open>
  \<open>church_decode\<close>: the local \<open>decoded\<close> starts at 0, the numeral is value-called with
  the counting function and the result twice with \<open>I\<close>; the value of \<open>decoded\<close> is
  returned. The state that the call leaves behind is returned with it.
\<close>

definition church_decode :: "nat \<Rightarrow> expression \<Rightarrow> eval_state \<Rightarrow> (size_t \<times> eval_state) option" where
  "church_decode fuel n s =
     (let s0 = s\<lparr>decoded := 0\<rparr> in
      case pass_by_value fuel n church_decode_counter s0 of
        None \<Rightarrow> None
      | Some (r1, s1) \<Rightarrow>
          (case pass_by_value fuel r1 I s1 of
             None \<Rightarrow> None
           | Some (r2, s2) \<Rightarrow>
               (case pass_by_value fuel r2 I s2 of
                  None \<Rightarrow> None
                | Some (r3, s3) \<Rightarrow> Some (decoded s3, s3))))"

text \<open>\<open>scott_encode\<close>: \<open>std::accumulate\<close> over the reversed range, from \<open>empty_list\<close>.\<close>

definition scott_encode :: "expression list \<Rightarrow> expression" where
  "scott_encode xs =
     foldl (\<lambda>acc e. name_call (name_call cons e) acc) empty_list (rev xs)"

text \<open>
  \<open>scott_decode\<close>: \<open>Y\<close> is value-called with \<open>_output_list\<close>, the result with the
  list and then twice with \<open>I\<close>. The output is what the run appends to \<open>result\<close>.
\<close>

definition scott_decode :: "nat \<Rightarrow> expression \<Rightarrow> eval_state \<Rightarrow> eval_state option" where
  "scott_decode fuel list s =
     (case pass_by_value fuel Y output_list s of
        None \<Rightarrow> None
      | Some (r1, s1) \<Rightarrow>
          (case pass_by_value fuel r1 list s1 of
             None \<Rightarrow> None
           | Some (r2, s2) \<Rightarrow>
               (case pass_by_value fuel r2 I s2 of
                  None \<Rightarrow> None
                | Some (r3, s3) \<Rightarrow>
                    (case pass_by_value fuel r3 I s3 of
                       None \<Rightarrow> None
                     | Some (r4, s4) \<Rightarrow> Some s4))))"

text \<open>The second \<open>std::transform\<close> of the pipeline: \<open>church_decode\<close> on every element in order.\<close>

fun transform_church_decode :: "nat \<Rightarrow> expression list \<Rightarrow> eval_state \<Rightarrow> (size_t list \<times> eval_state) option" where
  "transform_church_decode fuel [] s = Some ([], s)"
| "transform_church_decode fuel (e # es) s =
     (case church_decode fuel e s of
        None \<Rightarrow> None
      | Some (n, s1) \<Rightarrow>
          (case transform_church_decode fuel es s1 of
             None \<Rightarrow> None
           | Some (ns, s2) \<Rightarrow> Some (n # ns, s2)))"

text \<open>
  \<open>run_on_integer_sequence\<close>: the vector \<open>scott_decoded\<close> is the \<open>result\<close> of the
  state and starts empty; the value is the sequence written to the output iterator.
\<close>

definition run_on_integer_sequence :: "nat \<Rightarrow> size_t list \<Rightarrow> expression \<Rightarrow> size_t list option" where
  "run_on_integer_sequence fuel input program =
     (let church_encoded = map church_encode input in
      case scott_decode fuel (name_call program (scott_encode church_encoded))
             \<lparr>decoded = 0, result = []\<rparr> of
        None \<Rightarrow> None
      | Some s \<Rightarrow> map_option fst (transform_church_decode fuel (result s) s))"

section \<open>Notions used in the statements\<close>

text \<open>
  A chain \<open>e.pass_by_value(a\<^sub>1).pass_by_value(a\<^sub>2)...\<close> of value calls, each with the
  same fuel, and the relation "the chain returns \<open>r\<close>, given enough fuel".
\<close>

fun pass_by_values :: "nat \<Rightarrow> expression \<Rightarrow> expression list \<Rightarrow> eval_state \<Rightarrow> (expression \<times> eval_state) option" where
  "pass_by_values k e [] s = Some (e, s)"
| "pass_by_values k e (a # as) s =
     (case pass_by_value k e a s of
        None \<Rightarrow> None
      | Some (r, s') \<Rightarrow> pass_by_values k r as s')"

definition evaluates :: "expression \<Rightarrow> expression list \<Rightarrow> eval_state \<Rightarrow> expression \<times> eval_state \<Rightarrow> bool" where
  "evaluates e as s r \<longleftrightarrow> (\<exists>k. pass_by_values k e as s = Some r)"

text \<open>
  The class defines no equality on expressions; two expressions are told apart only by
  value-calling them. \<open>same_behaviour c e\<close>: a value call of \<open>c\<close> returns exactly what the
  same value call of \<open>e\<close> returns, and neither returns if the other does not.
\<close>

definition same_behaviour :: "expression \<Rightarrow> expression \<Rightarrow> bool" where
  "same_behaviour c e \<longleftrightarrow> (\<forall>a s r. evaluates c [a] s r \<longleftrightarrow> evaluates e [a] s r)"

text \<open>
  The arguments that the closures of \<open>pred\<close> hand on while a tower of predecessors is
  evaluated: \<open>pred_f\<close> applied \<open>d + j - 1\<close>, ..., \<open>d\<close> times to \<open>f\<close>.
\<close>

fun pred_args :: "expression \<Rightarrow> nat \<Rightarrow> nat \<Rightarrow> expression list" where
  "pred_args f d 0 = []"
| "pred_args f d (Suc j) = (pred_f ^^ (d + j)) f # pred_args f d j"

text \<open>
  What \<open>scott_decode\<close> writes for a list \<open>l\<close> of \<open>n\<close> elements: the results of
  \<open>car.pass_by_value\<close> on \<open>l\<close>, on \<open>cdr.pass_by_value(l)\<close>, and so on.
\<close>

fun scott_decode_output :: "expression \<Rightarrow> nat \<Rightarrow> expression list" where
  "scott_decode_output l 0 = []"
| "scott_decode_output l (Suc n) = name_call l car_sel # scott_decode_output (name_call l cdr_sel) n"

text \<open>
  The self-application \<open>x(x)\<close> that the body of \<open>Y\<close> builds, for \<open>f = I\<close>: an expression
  whose value call does not return.
\<close>

definition omega :: expression where
  "omega = name_call (Y_f I) (Y_f I)"

text \<open>
  \<open>Y_equiv\<close> is the least relation that relates the self-application \<open>x(x)\<close> built in
  the body of \<open>Y\<close> (with \<open>x = [f](expression x) { return f(x(x)); }\<close>) to the name call
  \<open>Y(f)\<close> and that is closed under every closure of the library. States are related when
  the counters agree and the outputs are related element by element.
\<close>

inductive Y_equiv :: "expression \<Rightarrow> expression \<Rightarrow> bool" where
  equiv_unfold: "Y_equiv f f' \<Longrightarrow> Y_equiv (name_call (Y_f f) (Y_f f)) (name_call Y f')"
| equiv_name_call_closure: "Y_equiv x1 y1 \<Longrightarrow> Y_equiv x2 y2 \<Longrightarrow> Y_equiv (name_call_closure x1 x2) (name_call_closure y1 y2)"
| equiv_church_encode_n: "Y_equiv (church_encode_n n) (church_encode_n n)"
| equiv_church_encode_n_f: "Y_equiv x2 y2 \<Longrightarrow> Y_equiv (church_encode_n_f n x2) (church_encode_n_f n y2)"
| equiv_truth: "Y_equiv truth truth"
| equiv_truth_x: "Y_equiv x1 y1 \<Longrightarrow> Y_equiv (truth_x x1) (truth_x y1)"
| equiv_falsity: "Y_equiv falsity falsity"
| equiv_falsity_x: "Y_equiv falsity_x falsity_x"
| equiv_Y: "Y_equiv Y Y"
| equiv_Y_f: "Y_equiv x1 y1 \<Longrightarrow> Y_equiv (Y_f x1) (Y_f y1)"
| equiv_I: "Y_equiv I I"
| equiv_K: "Y_equiv K K"
| equiv_K_x: "Y_equiv x1 y1 \<Longrightarrow> Y_equiv (K_x x1) (K_x y1)"
| equiv_S: "Y_equiv S S"
| equiv_S_x: "Y_equiv x1 y1 \<Longrightarrow> Y_equiv (S_x x1) (S_x y1)"
| equiv_S_x_y: "Y_equiv x1 y1 \<Longrightarrow> Y_equiv x2 y2 \<Longrightarrow> Y_equiv (S_x_y x1 x2) (S_x_y y1 y2)"
| equiv_i: "Y_equiv i i"
| equiv_succ: "Y_equiv succ succ"
| equiv_succ_n: "Y_equiv x1 y1 \<Longrightarrow> Y_equiv (succ_n x1) (succ_n y1)"
| equiv_succ_n_f: "Y_equiv x1 y1 \<Longrightarrow> Y_equiv x2 y2 \<Longrightarrow> Y_equiv (succ_n_f x1 x2) (succ_n_f y1 y2)"
| equiv_pred: "Y_equiv pred pred"
| equiv_pred_n: "Y_equiv x1 y1 \<Longrightarrow> Y_equiv (pred_n x1) (pred_n y1)"
| equiv_pred_n_f: "Y_equiv x1 y1 \<Longrightarrow> Y_equiv x2 y2 \<Longrightarrow> Y_equiv (pred_n_f x1 x2) (pred_n_f y1 y2)"
| equiv_pred_f: "Y_equiv x1 y1 \<Longrightarrow> Y_equiv (pred_f x1) (pred_f y1)"
| equiv_pred_f_g: "Y_equiv x1 y1 \<Longrightarrow> Y_equiv x2 y2 \<Longrightarrow> Y_equiv (pred_f_g x1 x2) (pred_f_g y1 y2)"
| equiv_pred_x: "Y_equiv x1 y1 \<Longrightarrow> Y_equiv (pred_x x1) (pred_x y1)"
| equiv_pred_id: "Y_equiv pred_id pred_id"
| equiv_add: "Y_equiv add add"
| equiv_add_n: "Y_equiv x1 y1 \<Longrightarrow> Y_equiv (add_n x1) (add_n y1)"
| equiv_sub: "Y_equiv sub sub"
| equiv_sub_n: "Y_equiv x1 y1 \<Longrightarrow> Y_equiv (sub_n x1) (sub_n y1)"
| equiv_mult: "Y_equiv mult mult"
| equiv_mult_n: "Y_equiv x1 y1 \<Longrightarrow> Y_equiv (mult_n x1) (mult_n y1)"
| equiv_is_zero: "Y_equiv is_zero is_zero"
| equiv_is_zero_x: "Y_equiv is_zero_x is_zero_x"
| equiv_cons: "Y_equiv cons cons"
| equiv_cons_a: "Y_equiv x1 y1 \<Longrightarrow> Y_equiv (cons_a x1) (cons_a y1)"
| equiv_cons_a_b: "Y_equiv x1 y1 \<Longrightarrow> Y_equiv x2 y2 \<Longrightarrow> Y_equiv (cons_a_b x1 x2) (cons_a_b y1 y2)"
| equiv_car: "Y_equiv car car"
| equiv_car_sel: "Y_equiv car_sel car_sel"
| equiv_car_sel_x: "Y_equiv x1 y1 \<Longrightarrow> Y_equiv (car_sel_x x1) (car_sel_x y1)"
| equiv_cdr: "Y_equiv cdr cdr"
| equiv_cdr_sel: "Y_equiv cdr_sel cdr_sel"
| equiv_cdr_sel_x: "Y_equiv cdr_sel_x cdr_sel_x"
| equiv_empty_list: "Y_equiv empty_list empty_list"
| equiv_empty_list_f: "Y_equiv empty_list_f empty_list_f"
| equiv_empty_list_f_x: "Y_equiv x1 y1 \<Longrightarrow> Y_equiv (empty_list_f_x x1) (empty_list_f_x y1)"
| equiv_is_empty: "Y_equiv is_empty is_empty"
| equiv_is_empty_sel: "Y_equiv is_empty_sel is_empty_sel"
| equiv_is_empty_sel_x: "Y_equiv is_empty_sel_x is_empty_sel_x"
| equiv_church_decode_counter: "Y_equiv church_decode_counter church_decode_counter"
| equiv_output_list: "Y_equiv output_list output_list"
| equiv_output_list_f: "Y_equiv x1 y1 \<Longrightarrow> Y_equiv (output_list_f x1) (output_list_f y1)"
| equiv_output_list_l_f: "Y_equiv x1 y1 \<Longrightarrow> Y_equiv x2 y2 \<Longrightarrow> Y_equiv (output_list_l_f x1 x2) (output_list_l_f y1 y2)"

definition Y_equiv_state :: "eval_state \<Rightarrow> eval_state \<Rightarrow> bool" where
  "Y_equiv_state s t \<longleftrightarrow> decoded s = decoded t \<and> list_all2 Y_equiv (result s) (result t)"

text \<open>
  The same state seen from a caller whose counter is ahead by \<open>d\<close> and whose output
  already holds \<open>out\<close>.
\<close>

definition in_context :: "size_t \<Rightarrow> expression list \<Rightarrow> eval_state \<Rightarrow> eval_state" where
  "in_context d out s = s\<lparr>decoded := d + decoded s, result := out @ result s\<rparr>"

text \<open>
  \<open>no_output e\<close>: no lambda of \<open>scott_decode\<close> occurs in \<open>e\<close>. These lambdas hold a
  reference to the output iterator of the call of \<open>scott_decode\<close> that made them, and
  that call hands none of them out.
\<close>

inductive no_output :: "expression \<Rightarrow> bool" where
  no_output_name_call_closure: "no_output x1 \<Longrightarrow> no_output x2 \<Longrightarrow> no_output (name_call_closure x1 x2)"
| no_output_church_encode_n: "no_output (church_encode_n n)"
| no_output_church_encode_n_f: "no_output x2 \<Longrightarrow> no_output (church_encode_n_f n x2)"
| no_output_truth: "no_output truth"
| no_output_truth_x: "no_output x1 \<Longrightarrow> no_output (truth_x x1)"
| no_output_falsity: "no_output falsity"
| no_output_falsity_x: "no_output falsity_x"
| no_output_Y: "no_output Y"
| no_output_Y_f: "no_output x1 \<Longrightarrow> no_output (Y_f x1)"
| no_output_I: "no_output I"
| no_output_K: "no_output K"
| no_output_K_x: "no_output x1 \<Longrightarrow> no_output (K_x x1)"
| no_output_S: "no_output S"
| no_output_S_x: "no_output x1 \<Longrightarrow> no_output (S_x x1)"
| no_output_S_x_y: "no_output x1 \<Longrightarrow> no_output x2 \<Longrightarrow> no_output (S_x_y x1 x2)"
| no_output_i: "no_output i"
| no_output_succ: "no_output succ"
| no_output_succ_n: "no_output x1 \<Longrightarrow> no_output (succ_n x1)"
| no_output_succ_n_f: "no_output x1 \<Longrightarrow> no_output x2 \<Longrightarrow> no_output (succ_n_f x1 x2)"
| no_output_pred: "no_output pred"
| no_output_pred_n: "no_output x1 \<Longrightarrow> no_output (pred_n x1)"
| no_output_pred_n_f: "no_output x1 \<Longrightarrow> no_output x2 \<Longrightarrow> no_output (pred_n_f x1 x2)"
| no_output_pred_f: "no_output x1 \<Longrightarrow> no_output (pred_f x1)"
| no_output_pred_f_g: "no_output x1 \<Longrightarrow> no_output x2 \<Longrightarrow> no_output (pred_f_g x1 x2)"
| no_output_pred_x: "no_output x1 \<Longrightarrow> no_output (pred_x x1)"
| no_output_pred_id: "no_output pred_id"
| no_output_add: "no_output add"
| no_output_add_n: "no_output x1 \<Longrightarrow> no_output (add_n x1)"
| no_output_sub: "no_output sub"
| no_output_sub_n: "no_output x1 \<Longrightarrow> no_output (sub_n x1)"
| no_output_mult: "no_output mult"
| no_output_mult_n: "no_output x1 \<Longrightarrow> no_output (mult_n x1)"
| no_output_is_zero: "no_output is_zero"
| no_output_is_zero_x: "no_output is_zero_x"
| no_output_cons: "no_output cons"
| no_output_cons_a: "no_output x1 \<Longrightarrow> no_output (cons_a x1)"
| no_output_cons_a_b: "no_output x1 \<Longrightarrow> no_output x2 \<Longrightarrow> no_output (cons_a_b x1 x2)"
| no_output_car: "no_output car"
| no_output_car_sel: "no_output car_sel"
| no_output_car_sel_x: "no_output x1 \<Longrightarrow> no_output (car_sel_x x1)"
| no_output_cdr: "no_output cdr"
| no_output_cdr_sel: "no_output cdr_sel"
| no_output_cdr_sel_x: "no_output cdr_sel_x"
| no_output_empty_list: "no_output empty_list"
| no_output_empty_list_f: "no_output empty_list_f"
| no_output_empty_list_f_x: "no_output x1 \<Longrightarrow> no_output (empty_list_f_x x1)"
| no_output_is_empty: "no_output is_empty"
| no_output_is_empty_sel: "no_output is_empty_sel"
| no_output_is_empty_sel_x: "no_output is_empty_sel_x"
| no_output_church_decode_counter: "no_output church_decode_counter"

section \<open>Fuel\<close>

lemma pass_by_value_Suc:
  "pass_by_value k e a s = Some r \<Longrightarrow> pass_by_value (Suc k) e a s = Some r"
proof (induction k arbitrary: e a s r)
  case 0
  then show ?case by simp
next
  case (Suc k)
  note IH = Suc.IH
  show ?case
  proof (cases e)
    case (name_call_closure arg self)
    with Suc.prems show ?thesis
      by (auto split: option.splits dest!: IH)
  next
    case (output_list_f f)
    with Suc.prems show ?thesis
      by (auto split: option.splits dest!: IH)
  next
    case (output_list_l_f l f)
    with Suc.prems show ?thesis
      by (auto split: option.splits dest!: IH simp: Let_def)
  qed (use Suc.prems in simp_all)
qed

lemma pass_by_value_mono:
  assumes "k \<le> k'" and "pass_by_value k e a s = Some r"
  shows "pass_by_value k' e a s = Some r"
  using assms by (induction rule: dec_induct) (auto intro: pass_by_value_Suc)

lemma pass_by_values_mono:
  assumes "k \<le> k'" and "pass_by_values k e as s = Some r"
  shows "pass_by_values k' e as s = Some r"
  using assms(2)
proof (induction as arbitrary: e s)
  case Nil
  then show ?case by simp
next
  case (Cons a as)
  from Cons.prems obtain r1 s1 where
    first: "pass_by_value k e a s = Some (r1, s1)" and
    rest: "pass_by_values k r1 as s1 = Some r"
    by (auto split: option.splits)
  from first have "pass_by_value k' e a s = Some (r1, s1)"
    by (rule pass_by_value_mono [OF assms(1)])
  with Cons.IH [OF rest] show ?case by simp
qed

lemma evaluates_deterministic:
  assumes "evaluates e as s r" and "evaluates e as s r'"
  shows "r = r'"
proof -
  from assms obtain k k' where
    "pass_by_values k e as s = Some r" and "pass_by_values k' e as s = Some r'"
    by (auto simp: evaluates_def)
  then have "pass_by_values (max k k') e as s = Some r"
    and "pass_by_values (max k k') e as s = Some r'"
    by (auto intro: pass_by_values_mono [rotated])
  then show ?thesis by simp
qed

lemma evaluates_enough_fuel:
  "evaluates e as s r \<longleftrightarrow> (\<exists>k. \<forall>fuel\<ge>k. pass_by_values fuel e as s = Some r)"
  unfolding evaluates_def
  by (meson order_refl pass_by_values_mono)

lemma evaluates_Nil [simp]: "evaluates e [] s r \<longleftrightarrow> r = (e, s)"
  by (auto simp: evaluates_def)

lemma evaluates_step:
  assumes "\<And>k. pass_by_value (Suc k) e a s = Some (e', s')"
  shows "evaluates e (a # as) s r \<longleftrightarrow> evaluates e' as s' r"
proof
  assume "evaluates e (a # as) s r"
  then obtain k where run: "pass_by_values k e (a # as) s = Some r"
    by (auto simp: evaluates_def)
  then obtain k0 where "k = Suc k0"
    by (cases k) auto
  with run assms [of k0] have "pass_by_values k e' as s' = Some r"
    by simp
  then show "evaluates e' as s' r"
    by (auto simp: evaluates_def)
next
  assume "evaluates e' as s' r"
  then obtain k where "pass_by_values k e' as s' = Some r"
    by (auto simp: evaluates_def)
  then have "pass_by_values (Suc k) e' as s' = Some r"
    by (auto intro: pass_by_values_mono [rotated])
  with assms [of k] have "pass_by_values (Suc k) e (a # as) s = Some r"
    by simp
  then show "evaluates e (a # as) s r"
    unfolding evaluates_def by blast
qed

lemma evaluates_name_call [simp]:
  "evaluates (name_call e a) (u # us) s r \<longleftrightarrow> evaluates e (a # u # us) s r"
proof
  assume "evaluates (name_call e a) (u # us) s r"
  then obtain k where run: "pass_by_values k (name_call e a) (u # us) s = Some r"
    by (auto simp: evaluates_def)
  then obtain k0 where k: "k = Suc k0"
    by (cases k) auto
  from run obtain r1 s1 r2 s2 where
    "pass_by_value k0 e a s = Some (r1, s1)" and
    "pass_by_value k0 r1 u s1 = Some (r2, s2)" and
    "pass_by_values k r2 us s2 = Some r"
    unfolding k by (auto simp: name_call_def split: option.splits)
  then have "pass_by_value k e a s = Some (r1, s1)" and
    "pass_by_value k r1 u s1 = Some (r2, s2)" and
    "pass_by_values k r2 us s2 = Some r"
    unfolding k by (auto intro: pass_by_value_Suc)
  then have "pass_by_values k e (a # u # us) s = Some r"
    by simp
  then show "evaluates e (a # u # us) s r"
    unfolding evaluates_def by blast
next
  assume "evaluates e (a # u # us) s r"
  then obtain k where "pass_by_values k e (a # u # us) s = Some r"
    by (auto simp: evaluates_def)
  then obtain r1 s1 r2 s2 where
    "pass_by_value k e a s = Some (r1, s1)" and
    "pass_by_value k r1 u s1 = Some (r2, s2)" and
    rest: "pass_by_values k r2 us s2 = Some r"
    by (auto split: option.splits)
  then have "pass_by_value (Suc k) (name_call e a) u s = Some (r2, s2)"
    by (simp add: name_call_def)
  moreover from rest have "pass_by_values (Suc k) r2 us s2 = Some r"
    by (auto intro: pass_by_values_mono [rotated])
  ultimately have "pass_by_values (Suc k) (name_call e a) (u # us) s = Some r"
    by simp
  then show "evaluates (name_call e a) (u # us) s r"
    unfolding evaluates_def by blast
qed

lemma evaluates_append:
  "evaluates e (as @ bs) s r \<longleftrightarrow>
     (\<exists>r1 s1. evaluates e as s (r1, s1) \<and> evaluates r1 bs s1 r)"
proof
  assume "evaluates e (as @ bs) s r"
  then obtain k where "pass_by_values k e (as @ bs) s = Some r"
    by (auto simp: evaluates_def)
  then have "\<exists>r1 s1. pass_by_values k e as s = Some (r1, s1) \<and> pass_by_values k r1 bs s1 = Some r"
    by (induction as arbitrary: e s) (auto split: option.splits)
  then show "\<exists>r1 s1. evaluates e as s (r1, s1) \<and> evaluates r1 bs s1 r"
    unfolding evaluates_def by blast
next
  assume "\<exists>r1 s1. evaluates e as s (r1, s1) \<and> evaluates r1 bs s1 r"
  then obtain r1 s1 k k' where
    "pass_by_values k e as s = Some (r1, s1)" and "pass_by_values k' r1 bs s1 = Some r"
    by (auto simp: evaluates_def)
  then have first: "pass_by_values (max k k') e as s = Some (r1, s1)"
    and rest: "pass_by_values (max k k') r1 bs s1 = Some r"
    by (auto intro: pass_by_values_mono [rotated])
  from first have "pass_by_values (max k k') e (as @ bs) s = Some r"
    by (induction as arbitrary: e s) (auto simp: rest split: option.splits)
  then show "evaluates e (as @ bs) s r"
    unfolding evaluates_def by blast
qed

section \<open>Evaluation rules\<close>


lemma evaluates_Cons:
  "evaluates e (a # as) s r \<longleftrightarrow>
     (\<exists>r1 s1. evaluates e [a] s (r1, s1) \<and> evaluates r1 as s1 r)"
  using evaluates_append [of e "[a]" as s r] by simp

lemma evaluates_closure [simp]:
  "evaluates (church_encode_n n) (f # as) s r \<longleftrightarrow> evaluates (church_encode_n_f n f) as s r"
  "evaluates (church_encode_n_f n f) (x # as) s r \<longleftrightarrow> evaluates (church_encode_loop 0 n f x) as s r"
  "evaluates truth (x # as) s r \<longleftrightarrow> evaluates (truth_x x) as s r"
  "evaluates (truth_x x) (y # as) s r \<longleftrightarrow> evaluates x as s r"
  "evaluates falsity (x # as) s r \<longleftrightarrow> evaluates falsity_x as s r"
  "evaluates falsity_x (y # as) s r \<longleftrightarrow> evaluates y as s r"
  "evaluates Y (f # as) s r \<longleftrightarrow> evaluates (name_call f (name_call (Y_f f) (Y_f f))) as s r"
  "evaluates (Y_f f) (x # as) s r \<longleftrightarrow> evaluates (name_call f (name_call x x)) as s r"
  "evaluates I (x # as) s r \<longleftrightarrow> evaluates x as s r"
  "evaluates K (x # as) s r \<longleftrightarrow> evaluates (K_x x) as s r"
  "evaluates (K_x x) (y # as) s r \<longleftrightarrow> evaluates x as s r"
  "evaluates S (x # as) s r \<longleftrightarrow> evaluates (S_x x) as s r"
  "evaluates (S_x x) (y # as) s r \<longleftrightarrow> evaluates (S_x_y x y) as s r"
  "evaluates (S_x_y x y) (z # as) s r \<longleftrightarrow>
     evaluates (name_call (name_call x z) (name_call y z)) as s r"
  "evaluates i (f # as) s r \<longleftrightarrow> evaluates (name_call (name_call f S) K) as s r"
  "evaluates succ (n' # as) s r \<longleftrightarrow> evaluates (succ_n n') as s r"
  "evaluates (succ_n n') (f # as) s r \<longleftrightarrow> evaluates (succ_n_f n' f) as s r"
  "evaluates (succ_n_f n' f) (x # as) s r \<longleftrightarrow>
     evaluates (name_call f (name_call (name_call n' f) x)) as s r"
  "evaluates pred (n' # as) s r \<longleftrightarrow> evaluates (pred_n n') as s r"
  "evaluates (pred_n n') (f # as) s r \<longleftrightarrow> evaluates (pred_n_f n' f) as s r"
  "evaluates (pred_n_f n' f) (x # as) s r \<longleftrightarrow>
     evaluates (name_call (name_call (name_call n' (pred_f f)) (pred_x x)) pred_id) as s r"
  "evaluates (pred_f f) (g # as) s r \<longleftrightarrow> evaluates (pred_f_g f g) as s r"
  "evaluates (pred_f_g f g) (h # as) s r \<longleftrightarrow> evaluates (name_call h (name_call g f)) as s r"
  "evaluates (pred_x x) (y # as) s r \<longleftrightarrow> evaluates x as s r"
  "evaluates pred_id (y # as) s r \<longleftrightarrow> evaluates y as s r"
  "evaluates add (n' # as) s r \<longleftrightarrow> evaluates (add_n n') as s r"
  "evaluates (add_n n') (m' # as) s r \<longleftrightarrow> evaluates (name_call (name_call n' succ) m') as s r"
  "evaluates sub (n' # as) s r \<longleftrightarrow> evaluates (sub_n n') as s r"
  "evaluates (sub_n n') (m' # as) s r \<longleftrightarrow> evaluates (name_call (name_call m' pred) n') as s r"
  "evaluates mult (n' # as) s r \<longleftrightarrow> evaluates (mult_n n') as s r"
  "evaluates (mult_n n') (m' # as) s r \<longleftrightarrow>
     evaluates (name_call (name_call n' (name_call add m')) (church_encode 0)) as s r"
  "evaluates is_zero (n' # as) s r \<longleftrightarrow>
     evaluates (name_call (name_call n' is_zero_x) truth) as s r"
  "evaluates is_zero_x (x # as) s r \<longleftrightarrow> evaluates falsity as s r"
  "evaluates cons (a # as) s r \<longleftrightarrow> evaluates (cons_a a) as s r"
  "evaluates (cons_a a) (b # as) s r \<longleftrightarrow> evaluates (cons_a_b a b) as s r"
  "evaluates (cons_a_b a b) (f # as) s r \<longleftrightarrow> evaluates (name_call (name_call f a) b) as s r"
  "evaluates car (p # as) s r \<longleftrightarrow> evaluates (name_call p car_sel) as s r"
  "evaluates car_sel (x # as) s r \<longleftrightarrow> evaluates (car_sel_x x) as s r"
  "evaluates (car_sel_x x) (y # as) s r \<longleftrightarrow> evaluates x as s r"
  "evaluates cdr (p # as) s r \<longleftrightarrow> evaluates (name_call p cdr_sel) as s r"
  "evaluates cdr_sel (x # as) s r \<longleftrightarrow> evaluates cdr_sel_x as s r"
  "evaluates cdr_sel_x (y # as) s r \<longleftrightarrow> evaluates y as s r"
  "evaluates empty_list (f # as) s r \<longleftrightarrow> evaluates empty_list_f as s r"
  "evaluates empty_list_f (x # as) s r \<longleftrightarrow> evaluates (empty_list_f_x x) as s r"
  "evaluates (empty_list_f_x x) (y # as) s r \<longleftrightarrow> evaluates x as s r"
  "evaluates is_empty (l # as) s r \<longleftrightarrow> evaluates (name_call l is_empty_sel) as s r"
  "evaluates is_empty_sel (x # as) s r \<longleftrightarrow> evaluates is_empty_sel_x as s r"
  "evaluates is_empty_sel_x (y # as) s r \<longleftrightarrow> evaluates falsity as s r"
  "evaluates church_decode_counter (x # as) s r \<longleftrightarrow>
     evaluates x as (s\<lparr>decoded := decoded s + 1\<rparr>) r"
  "evaluates output_list (f # as) s r \<longleftrightarrow> evaluates (output_list_f f) as s r"
  by (rule evaluates_step, simp add: Let_def)+

lemma evaluates_output_list_f [simp]:
  "evaluates (output_list_f f) (l # as) s r \<longleftrightarrow>
     evaluates is_empty (l # empty_list # output_list_l_f l f # as) s r"
proof -
  have fuel: "pass_by_value (Suc k) (output_list_f f) l s =
      pass_by_values k is_empty [l, empty_list, output_list_l_f l f] s" for k
    by (simp split: option.splits)
  have "evaluates (output_list_f f) [l] s q \<longleftrightarrow>
      evaluates is_empty [l, empty_list, output_list_l_f l f] s q" for q
  proof
    assume "evaluates (output_list_f f) [l] s q"
    then obtain k where run: "pass_by_value k (output_list_f f) l s = Some q"
      by (auto simp: evaluates_def split: option.splits)
    then obtain k0 where "k = Suc k0"
      by (cases k) auto
    with run have "pass_by_values k0 is_empty [l, empty_list, output_list_l_f l f] s = Some q"
      by (simp only: fuel)
    then show "evaluates is_empty [l, empty_list, output_list_l_f l f] s q"
      unfolding evaluates_def by blast
  next
    assume "evaluates is_empty [l, empty_list, output_list_l_f l f] s q"
    then obtain k where "pass_by_value (Suc k) (output_list_f f) l s = Some q"
      unfolding evaluates_def by (auto simp only: fuel)
    then have "pass_by_values (Suc k) (output_list_f f) [l] s = Some q"
      by (simp split: prod.splits)
    then show "evaluates (output_list_f f) [l] s q"
      unfolding evaluates_def by blast
  qed
  then show ?thesis
    using evaluates_Cons [of "output_list_f f" l as s r]
      evaluates_append [of is_empty "[l, empty_list, output_list_l_f l f]" as s r]
    by simp
qed


lemma evaluates_output_list_l_f [simp]:
  "evaluates (output_list_l_f l f) (u # as) s r \<longleftrightarrow>
     evaluates f (name_call l cdr_sel # u # as)
       (s\<lparr>result := result s @ [name_call l car_sel]\<rparr>) r"
proof -
  let ?s = "s\<lparr>result := result s @ [name_call l car_sel]\<rparr>"
  have fuel: "pass_by_value (Suc (Suc k)) (output_list_l_f l f) u s =
      pass_by_values (Suc k) f [name_call l cdr_sel, u] ?s" for k
    by (simp split: option.splits)
  have "evaluates (output_list_l_f l f) [u] s q \<longleftrightarrow>
      evaluates f [name_call l cdr_sel, u] ?s q" for q
  proof
    assume "evaluates (output_list_l_f l f) [u] s q"
    then obtain k where run: "pass_by_value k (output_list_l_f l f) u s = Some q"
      by (auto simp: evaluates_def split: option.splits)
    then obtain k0 where "k = Suc (Suc k0)"
      by (cases k; simp) (rename_tac k1, case_tac k1; simp)
    with run have "pass_by_values (Suc k0) f [name_call l cdr_sel, u] ?s = Some q"
      by (simp only: fuel)
    then show "evaluates f [name_call l cdr_sel, u] ?s q"
      unfolding evaluates_def by blast
  next
    assume "evaluates f [name_call l cdr_sel, u] ?s q"
    then obtain k where "pass_by_values k f [name_call l cdr_sel, u] ?s = Some q"
      unfolding evaluates_def by blast
    then have "pass_by_values (Suc k) f [name_call l cdr_sel, u] ?s = Some q"
      by (rule pass_by_values_mono [rotated]) simp
    then have "pass_by_value (Suc (Suc k)) (output_list_l_f l f) u s = Some q"
      by (simp only: fuel)
    then have "pass_by_values (Suc (Suc k)) (output_list_l_f l f) [u] s = Some q"
      by (simp split: prod.splits)
    then show "evaluates (output_list_l_f l f) [u] s q"
      unfolding evaluates_def by blast
  qed
  then show ?thesis
    using evaluates_Cons [of "output_list_l_f l f" u as s r]
      evaluates_append [of f "[name_call l cdr_sel, u]" as ?s r]
    by simp
qed

lemma church_encode_loop_from:
  "j \<le> n \<Longrightarrow> church_encode_loop j n f x = (name_call f ^^ (unat n - unat j)) x"
proof (induction j n f x rule: church_encode_loop.induct)
  case (1 j n f x)
  show ?case
  proof (cases "j < n")
    case True
    have below: "unat j < unat n"
      using True by (simp add: word_less_nat_alt)
    moreover have "unat n < 2 ^ 64"
      using unsigned_less [of n] by simp
    ultimately have "unat j + unat (1::size_t) < 2 ^ LENGTH(64)"
      by simp
    then have next_j: "unat (j + 1) = Suc (unat j)"
      by (simp add: unat_add_lem [THEN iffD1])
    then have "j + 1 \<le> n"
      using below by (simp add: word_le_nat_alt)
    with "1.IH" [OF True] next_j
    have "church_encode_loop (j + 1) n f (name_call f x) =
        (name_call f ^^ (unat n - Suc (unat j))) (name_call f x)"
      by simp
    moreover have "unat n - unat j = Suc (unat n - Suc (unat j))"
      using below by simp
    ultimately show ?thesis
      using True by (simp add: church_encode_loop.simps [of j] funpow_swap1)
  next
    case False
    with "1.prems" have "j = n" by simp
    then show ?thesis
      by (simp add: church_encode_loop.simps [of n])
  qed
qed

lemma church_encode_loop_funpow:
  "church_encode_loop 0 n f x = (name_call f ^^ unat n) x"
  using church_encode_loop_from [of 0 n f x] by simp

lemma church_decode_chain:
  "church_decode fuel n s =
     (case pass_by_values fuel n [church_decode_counter, I, I] (s\<lparr>decoded := 0\<rparr>) of
        None \<Rightarrow> None
      | Some (r, t) \<Rightarrow> Some (decoded t, t))"
  by (simp add: church_decode_def split: option.splits)

lemma scott_decode_chain:
  "scott_decode fuel list s =
     map_option snd (pass_by_values fuel Y [output_list, list, I, I] s)"
  by (simp add: scott_decode_def split: option.splits)

lemma church_decode_enough_fuel:
  assumes "evaluates n [church_decode_counter, I, I] (s\<lparr>decoded := 0\<rparr>) (r, t)"
  shows "\<exists>k. \<forall>fuel\<ge>k. church_decode fuel n s = Some (decoded t, t)"
  using assms unfolding evaluates_enough_fuel church_decode_chain
  by (metis (mono_tags, lifting) option.simps(5) old.prod.case)

lemma counting_tower:
  "evaluates ((name_call church_decode_counter ^^ j) x) (u # as) s r \<longleftrightarrow>
     evaluates x (u # as) (s\<lparr>decoded := decoded s + of_nat j\<rparr>) r"
  by (induction j arbitrary: s) (simp_all add: ac_simps)

lemma evaluates_name_call_stack:
  "us \<noteq> [] \<Longrightarrow> evaluates (name_call e a) us s r \<longleftrightarrow> evaluates e (a # us) s r"
  by (cases us) simp_all

lemma pred_tower:
  "evaluates ((name_call pred ^^ j) c) (f # x # u # as) s r \<longleftrightarrow>
     evaluates c ((pred_f ^^ j) f # (pred_x ^^ j) x # replicate j pred_id @ u # as) s r"
proof (induction j arbitrary: f x u as)
  case 0
  show ?case by simp
next
  case (Suc j)
  have "evaluates ((name_call pred ^^ Suc j) c) (f # x # u # as) s r \<longleftrightarrow>
      evaluates ((name_call pred ^^ j) c) (pred_f f # pred_x x # pred_id # u # as) s r"
    by simp
  also have "\<dots> \<longleftrightarrow> evaluates c ((pred_f ^^ j) (pred_f f) # (pred_x ^^ j) (pred_x x) #
      replicate j pred_id @ pred_id # u # as) s r"
    by (rule Suc.IH)
  also have "(pred_f ^^ j) (pred_f f) = (pred_f ^^ Suc j) f"
    by (simp add: funpow_swap1)
  also have "(pred_x ^^ j) (pred_x x) = (pred_x ^^ Suc j) x"
    by (simp add: funpow_swap1)
  also have "replicate j pred_id @ pred_id # u # as = replicate (Suc j) pred_id @ u # as"
    by (simp add: replicate_append_same)
  finally show ?case .
qed

lemma pred_x_tower:
  "length ws = j \<Longrightarrow>
     evaluates ((pred_x ^^ j) x) (ws @ rest) s r \<longleftrightarrow> evaluates x rest s r"
proof (induction j arbitrary: ws)
  case 0
  then show ?case by simp
next
  case (Suc j)
  then obtain w ws' where "ws = w # ws'" and "length ws' = j"
    by (cases ws) auto
  with Suc.IH show ?case by simp
qed

lemma pred_f_pass:
  "rest \<noteq> [] \<Longrightarrow>
     evaluates (pred_f g) (b # map pred_f gs @ pred_id # rest) s r \<longleftrightarrow>
     evaluates b (g # gs @ rest) s r"
proof (induction gs arbitrary: g b)
  case Nil
  then show ?case
    by (simp add: evaluates_name_call_stack)
next
  case (Cons g1 gs)
  from Cons.IH [OF Cons.prems, of g1 "name_call b g"] show ?case
    by (simp add: evaluates_name_call_stack)
qed

lemma pred_args_Suc: "pred_args f (Suc d) j = map pred_f (pred_args f d j)"
  by (induction j) simp_all

lemma length_pred_args [simp]: "length (pred_args f d j) = j"
  by (induction j) simp_all

lemma pred_rotation:
  "k \<le> d \<Longrightarrow>
     evaluates ((name_call ((pred_f ^^ (d + j)) f) ^^ k) ((pred_x ^^ (d + j)) x))
       (pred_args f d j @ replicate d pred_id @ u # as) s r \<longleftrightarrow>
     evaluates x (u # as) s r"
proof (induction k arbitrary: d j)
  case 0
  have "evaluates ((pred_x ^^ (d + j)) x)
      ((pred_args f d j @ replicate d pred_id) @ u # as) s r \<longleftrightarrow> evaluates x (u # as) s r"
    by (rule pred_x_tower) simp
  then show ?case by simp
next
  case (Suc k)
  then obtain d' where d: "d = Suc d'" and "k \<le> d'"
    by (cases d) auto
  let ?t = "(name_call ((pred_f ^^ (d + j)) f) ^^ k) ((pred_x ^^ (d + j)) x)"
  let ?rest = "replicate d' pred_id @ u # as"
  have "evaluates (name_call ((pred_f ^^ (d + j)) f) ?t)
      (pred_args f d j @ replicate d pred_id @ u # as) s r \<longleftrightarrow>
    evaluates (pred_f ((pred_f ^^ (d' + j)) f))
      (?t # map pred_f (pred_args f d' j) @ pred_id # ?rest) s r"
    by (simp add: evaluates_name_call_stack d pred_args_Suc)
  also have "\<dots> \<longleftrightarrow> evaluates ?t ((pred_f ^^ (d' + j)) f # pred_args f d' j @ ?rest) s r"
    by (rule pred_f_pass) simp
  also have "\<dots> \<longleftrightarrow> evaluates ?t (pred_args f d' (Suc j) @ ?rest) s r"
    by simp
  also have "\<dots> \<longleftrightarrow> evaluates x (u # as) s r"
    using Suc.IH [OF \<open>k \<le> d'\<close>, of "Suc j"] by (simp add: d)
  finally show ?case by simp
qed

lemma sub_saturates:
  assumes "n \<le> m"
  shows "evaluates (name_call (name_call sub (church_encode n)) (church_encode m))
      (f # x # u # as) s r \<longleftrightarrow> evaluates x (u # as) s r"
proof -
  have "unat n \<le> unat m"
    using assms by (simp add: word_le_nat_alt)
  from pred_rotation [OF this, of 0 f x u as s r] show ?thesis
    by (simp add: church_encode_def church_encode_loop_funpow pred_tower)
qed

lemma evaluates_is_zero_name_call:
  "evaluates (name_call is_zero p) (a # as) s r \<longleftrightarrow>
     evaluates p (is_zero_x # truth # a # as) s r"
  by simp

lemma is_zero_sub:
  assumes "n \<le> m"
  shows "evaluates (name_call is_zero (name_call (name_call sub (church_encode n)) (church_encode m)))
      [a, b] s r \<longleftrightarrow> r = (a, s)"
  by (simp only: evaluates_is_zero_name_call sub_saturates [OF assms]) simp

section \<open>The fixed-point equivalence is preserved by value calls\<close>

lemma Y_equiv_name_call:
  "Y_equiv e e' \<Longrightarrow> Y_equiv a a' \<Longrightarrow> Y_equiv (name_call e a) (name_call e' a')"
  unfolding name_call_def by (rule equiv_name_call_closure)

lemma Y_equiv_refl: "Y_equiv e e"
  by (induction e) (auto intro: Y_equiv.intros)

lemma Y_equiv_church_encode_loop:
  "Y_equiv f f' \<Longrightarrow> Y_equiv x x' \<Longrightarrow>
     Y_equiv (church_encode_loop j n f x) (church_encode_loop j n f' x')"
proof (induction j n f x arbitrary: x' rule: church_encode_loop.induct)
  case (1 j n f x)
  show ?case
  proof (cases "j < n")
    case True
    from "1.IH" [OF True "1.prems"(1) Y_equiv_name_call [OF "1.prems"]]
    show ?thesis
      using True by (simp add: church_encode_loop.simps [of j])
  next
    case False
    with "1.prems" show ?thesis
      by (simp add: church_encode_loop.simps [of j])
  qed
qed

lemma rel_option_bind:
  assumes "rel_option (rel_prod A B) m m'"
    and "\<And>r t r' t'. A r r' \<Longrightarrow> B t t' \<Longrightarrow> rel_option Q (f r t) (g r' t')"
  shows "rel_option Q (case m of None \<Rightarrow> None | Some (r, t) \<Rightarrow> f r t)
     (case m' of None \<Rightarrow> None | Some (r, t) \<Rightarrow> g r t)"
  using assms by (cases m; cases m') auto

lemma Y_equiv_state_emit:
  "Y_equiv_state s t \<Longrightarrow> Y_equiv c c' \<Longrightarrow>
     Y_equiv_state (s\<lparr>result := result s @ [c]\<rparr>) (t\<lparr>result := result t @ [c']\<rparr>)"
  by (simp add: Y_equiv_state_def list_all2_appendI)

lemma Y_equiv_state_count:
  "Y_equiv_state s t \<Longrightarrow>
     Y_equiv_state (s\<lparr>decoded := decoded s + 1\<rparr>) (t\<lparr>decoded := decoded t + 1\<rparr>)"
  by (simp add: Y_equiv_state_def)

lemmas Y_equiv_intros = Y_equiv.intros Y_equiv_name_call Y_equiv_church_encode_loop
  Y_equiv_state_count Y_equiv_refl

lemma Y_equiv_pass_by_value:
  "Y_equiv e e' \<Longrightarrow> Y_equiv a a' \<Longrightarrow> Y_equiv_state s s' \<Longrightarrow>
     rel_option (rel_prod Y_equiv Y_equiv_state) (pass_by_value k e a s) (pass_by_value k e' a' s')"
proof (induction k arbitrary: e e' a a' s s')
  case 0
  show ?case by simp
next
  case (Suc k)
  note IH = Suc.IH
  note arg = Suc.prems(2) and state = Suc.prems(3)
  from Suc.prems(1) show ?case
  proof cases
    case (equiv_unfold f f')
    show ?thesis
    proof (cases k)
      case 0
      with equiv_unfold show ?thesis
        by (simp add: name_call_def)
    next
      case (Suc k0)
      have "Y_equiv (name_call f (name_call (Y_f f) (Y_f f)))
          (name_call f' (name_call (Y_f f') (Y_f f')))"
        using equiv_unfold(3) by (intro Y_equiv_intros)
      from IH [OF this arg state] show ?thesis
        unfolding equiv_unfold Suc by (simp add: name_call_def Let_def)
    qed
  next
    case (equiv_name_call_closure x1 y1 x2 y2)
    have "rel_option (rel_prod Y_equiv Y_equiv_state)
        (case pass_by_value k x2 x1 s of None \<Rightarrow> None | Some (r, t) \<Rightarrow> pass_by_value k r a t)
        (case pass_by_value k y2 y1 s' of None \<Rightarrow> None | Some (r, t) \<Rightarrow> pass_by_value k r a' t)"
      by (rule rel_option_bind [OF IH [OF equiv_name_call_closure(4,3) state]])
         (auto intro: IH arg)
    then show ?thesis
      unfolding equiv_name_call_closure by simp
  next
    case (equiv_output_list_f f f')
    let ?emit = "output_list_l_f a f" and ?emit' = "output_list_l_f a' f'"
    have emit: "Y_equiv ?emit ?emit'"
      using arg equiv_output_list_f(3) by (intro Y_equiv_intros)
    have "rel_option (rel_prod Y_equiv Y_equiv_state)
        (case pass_by_value k is_empty a s of None \<Rightarrow> None
         | Some (r1, s1) \<Rightarrow>
             (case pass_by_value k r1 empty_list s1 of None \<Rightarrow> None
              | Some (r2, s2) \<Rightarrow> pass_by_value k r2 ?emit s2))
        (case pass_by_value k is_empty a' s' of None \<Rightarrow> None
         | Some (r1, s1) \<Rightarrow>
             (case pass_by_value k r1 empty_list s1 of None \<Rightarrow> None
              | Some (r2, s2) \<Rightarrow> pass_by_value k r2 ?emit' s2))"
      apply (rule rel_option_bind [OF IH [OF equiv_is_empty arg state]])
      apply (rule rel_option_bind [OF IH [OF _ equiv_empty_list]])
        apply assumption
       apply assumption
      apply (rule IH [OF _ emit])
       apply assumption
      apply assumption
      done
    then show ?thesis
      unfolding equiv_output_list_f by simp
  next
    case (equiv_output_list_l_f l l' f f')
    have "rel_option (rel_prod Y_equiv Y_equiv_state)
        (case pass_by_value k car l s of None \<Rightarrow> None
         | Some (c, s1) \<Rightarrow>
             (case pass_by_value k cdr l (s1\<lparr>result := result s1 @ [c]\<rparr>) of None \<Rightarrow> None
              | Some (d, s3) \<Rightarrow>
                  (case pass_by_value k f d s3 of None \<Rightarrow> None
                   | Some (r, s4) \<Rightarrow> pass_by_value k r a s4)))
        (case pass_by_value k car l' s' of None \<Rightarrow> None
         | Some (c, s1) \<Rightarrow>
             (case pass_by_value k cdr l' (s1\<lparr>result := result s1 @ [c]\<rparr>) of None \<Rightarrow> None
              | Some (d, s3) \<Rightarrow>
                  (case pass_by_value k f' d s3 of None \<Rightarrow> None
                   | Some (r, s4) \<Rightarrow> pass_by_value k r a' s4)))"
      apply (rule rel_option_bind [OF IH [OF equiv_car equiv_output_list_l_f(3) state]])
      apply (rule rel_option_bind [OF IH [OF equiv_cdr equiv_output_list_l_f(3)]])
       apply (erule (1) Y_equiv_state_emit)
      apply (rule rel_option_bind [OF IH [OF equiv_output_list_l_f(4)]])
        apply assumption
       apply assumption
      apply (rule IH [OF _ arg])
       apply assumption
      apply assumption
      done
    then show ?thesis
      unfolding equiv_output_list_l_f pass_by_value.simps Let_def .
  qed (use arg state in \<open>auto intro!: Y_equiv_intros simp: Let_def\<close>)
qed

section \<open>The decoding loop\<close>

lemma scott_encode_Nil: "scott_encode [] = empty_list"
  by (simp add: scott_encode_def)

lemma scott_encode_Cons:
  "scott_encode (x # xs) = name_call (name_call cons x) (scott_encode xs)"
  by (simp add: scott_encode_def)

lemma same_behaviour_stack:
  assumes "same_behaviour c e"
  shows "evaluates c (a # as) s r \<longleftrightarrow> evaluates e (a # as) s r"
proof -
  from assms have "evaluates c [a] s q \<longleftrightarrow> evaluates e [a] s q" for q
    unfolding same_behaviour_def by blast
  then show ?thesis
    using evaluates_Cons [of c a as s r] evaluates_Cons [of e a as s r] by blast
qed

lemma same_behaviour_car:
  assumes "same_behaviour l (scott_encode (x # xs))"
  shows "same_behaviour (name_call l car_sel) x"
  unfolding same_behaviour_def
  by (simp add: same_behaviour_stack [OF assms] scott_encode_Cons)

lemma same_behaviour_cdr:
  assumes "same_behaviour l (scott_encode (x # xs))"
  shows "same_behaviour (name_call l cdr_sel) (scott_encode xs)"
  unfolding same_behaviour_def
  by (simp add: same_behaviour_stack [OF assms] scott_encode_Cons)

lemma same_behaviour_refl: "same_behaviour e e"
  by (simp add: same_behaviour_def)

lemma output_list_loop:
  assumes "same_behaviour l (scott_encode xs)"
  shows "evaluates (output_list_f (name_call (Y_f output_list) (Y_f output_list)))
      (l # u # as) s r \<longleftrightarrow>
    evaluates empty_list (u # as)
      (s\<lparr>result := result s @ scott_decode_output l (length xs)\<rparr>) r"
  using assms
proof (induction xs arbitrary: l s)
  case Nil
  let ?f = "name_call (Y_f output_list) (Y_f output_list)"
  have "evaluates (output_list_f ?f) (l # u # as) s r \<longleftrightarrow>
      evaluates l (is_empty_sel # empty_list # output_list_l_f l ?f # u # as) s r"
    by simp
  also have "\<dots> \<longleftrightarrow>
      evaluates (scott_encode []) (is_empty_sel # empty_list # output_list_l_f l ?f # u # as) s r"
    by (rule same_behaviour_stack [OF Nil])
  also have "\<dots> \<longleftrightarrow> evaluates empty_list (u # as) s r"
    by (simp add: scott_encode_Nil)
  finally show ?case by simp
next
  case (Cons x xs)
  let ?f = "name_call (Y_f output_list) (Y_f output_list)"
  let ?s = "s\<lparr>result := result s @ [name_call l car_sel]\<rparr>"
  have "evaluates (output_list_f ?f) (l # u # as) s r \<longleftrightarrow>
      evaluates l (is_empty_sel # empty_list # output_list_l_f l ?f # u # as) s r"
    by simp
  also have "\<dots> \<longleftrightarrow>
      evaluates (scott_encode (x # xs))
        (is_empty_sel # empty_list # output_list_l_f l ?f # u # as) s r"
    by (rule same_behaviour_stack [OF Cons.prems])
  also have "\<dots> \<longleftrightarrow> evaluates (output_list_f ?f) (name_call l cdr_sel # u # as) ?s r"
    by (simp add: scott_encode_Cons del: evaluates_output_list_f)
  also have "\<dots> \<longleftrightarrow> evaluates empty_list (u # as)
      (?s\<lparr>result := result ?s @ scott_decode_output (name_call l cdr_sel) (length xs)\<rparr>) r"
    by (rule Cons.IH [OF same_behaviour_cdr [OF Cons.prems]])
  finally show ?case by simp
qed

lemma scott_decode_output_same_behaviour:
  "same_behaviour l (scott_encode xs) \<Longrightarrow>
     list_all2 same_behaviour (scott_decode_output l (length xs)) xs"
proof (induction xs arbitrary: l)
  case Nil
  show ?case by simp
next
  case (Cons x xs)
  from same_behaviour_car [OF Cons.prems] Cons.IH [OF same_behaviour_cdr [OF Cons.prems]]
  show ?case by simp
qed

lemma scott_decode_enough_fuel:
  assumes "evaluates Y [output_list, list, I, I] s (r, t)"
  shows "\<exists>k. \<forall>fuel\<ge>k. scott_decode fuel list s = Some t"
  using assms unfolding evaluates_enough_fuel scott_decode_chain
  by (metis option.simps(9) snd_conv)

lemma scott_decode_scott_encode:
  "\<exists>k. \<forall>fuel\<ge>k. scott_decode fuel (scott_encode xs) s =
     Some (s\<lparr>result := result s @ scott_decode_output (scott_encode xs) (length xs)\<rparr>)"
proof -
  have "evaluates Y [output_list, scott_encode xs, I, I] s
      (empty_list_f_x I,
       s\<lparr>result := result s @ scott_decode_output (scott_encode xs) (length xs)\<rparr>)"
    by (simp add: output_list_loop [OF same_behaviour_refl] del: evaluates_output_list_f)
  from scott_decode_enough_fuel [OF this] show ?thesis .
qed

lemma church_decode_same_behaviour:
  assumes "same_behaviour c (church_encode n)"
  shows "\<exists>k. \<forall>fuel\<ge>k. church_decode fuel c s = Some (n, s\<lparr>decoded := n\<rparr>)"
proof -
  have "evaluates c [church_decode_counter, I, I] (s\<lparr>decoded := 0\<rparr>)
      (I, s\<lparr>decoded := n\<rparr>)"
    by (simp add: same_behaviour_stack [OF assms] church_encode_def
        church_encode_loop_funpow counting_tower)
  from church_decode_enough_fuel [OF this] show ?thesis by simp
qed

section \<open>What a value call does to the state\<close>

lemma in_context_count:
  "in_context d out (s\<lparr>decoded := decoded s + 1\<rparr>) =
     (in_context d out s)\<lparr>decoded := decoded (in_context d out s) + 1\<rparr>"
  by (simp add: in_context_def add.assoc)

lemma in_context_emit:
  "in_context d out (s\<lparr>result := result s @ [c]\<rparr>) =
     (in_context d out s)\<lparr>result := result (in_context d out s) @ [c]\<rparr>"
  by (simp add: in_context_def)

lemma pass_by_value_in_context:
  "pass_by_value k e a (in_context d out s) =
     map_option (map_prod id (in_context d out)) (pass_by_value k e a s)"
proof (induction k arbitrary: e a s)
  case 0
  show ?case by simp
next
  case (Suc k)
  note IH = Suc.IH
  show ?case
  proof (cases e)
    case (name_call_closure arg self)
    then show ?thesis
      by (simp add: IH split: option.splits)
  next
    case (output_list_f f)
    then show ?thesis
      by (simp add: IH split: option.splits)
  next
    case (output_list_l_f l f)
    then show ?thesis
      by (simp add: IH in_context_emit [symmetric] Let_def split: option.splits)
  next
    case church_decode_counter
    then show ?thesis
      by (simp add: in_context_count)
  qed simp_all
qed

lemma pass_by_values_in_context:
  "pass_by_values k e as (in_context d out s) =
     map_option (map_prod id (in_context d out)) (pass_by_values k e as s)"
  by (induction as arbitrary: e s) (simp_all add: pass_by_value_in_context split: option.splits)

lemma church_decode_fresh_counter:
  "map_option fst (church_decode fuel e s) = map_option fst (church_decode fuel e t)"
proof -
  have "u\<lparr>decoded := 0\<rparr> = in_context 0 (result u) \<lparr>decoded = 0, result = []\<rparr>" for u :: eval_state
    by (simp add: in_context_def)
  then have "map_option fst (church_decode fuel e u) =
      map_option (\<lambda>(r, v). decoded v)
        (pass_by_values fuel e [church_decode_counter, I, I] \<lparr>decoded = 0, result = []\<rparr>)"
    for u :: eval_state
    by (simp only: church_decode_chain pass_by_values_in_context)
      (auto simp: in_context_def split: option.splits)
  then show ?thesis by simp
qed

lemma omega_diverges: "pass_by_value k omega x s = None"
proof (induction k arbitrary: x s rule: less_induct)
  case (less k)
  show ?case
  proof (cases k)
    case 0
    then show ?thesis by simp
  next
    case k1: (Suc k1)
    show ?thesis
    proof (cases k1)
      case 0
      with k1 show ?thesis by (simp add: omega_def name_call_def)
    next
      case k2: (Suc k2)
      show ?thesis
      proof (cases k2)
        case 0
        with k1 k2 show ?thesis by (simp add: omega_def name_call_def)
      next
        case (Suc k3)
        have "pass_by_value k2 omega x s = None"
          by (rule less.IH) (simp add: k1 k2)
        then show ?thesis
          unfolding k1 k2 Suc by (simp add: omega_def name_call_def)
      qed
    qed
  qed
qed

lemma no_output_name_call:
  "no_output e \<Longrightarrow> no_output a \<Longrightarrow> no_output (name_call e a)"
  unfolding name_call_def by (rule no_output_name_call_closure)

lemma no_output_church_encode_loop:
  "no_output f \<Longrightarrow> no_output x \<Longrightarrow> no_output (church_encode_loop j n f x)"
proof (induction j n f x rule: church_encode_loop.induct)
  case (1 j n f x)
  show ?case
  proof (cases "j < n")
    case True
    from "1.IH" [OF True "1.prems"(1) no_output_name_call [OF "1.prems"]]
    show ?thesis
      using True by (simp add: church_encode_loop.simps [of j])
  next
    case False
    with "1.prems" show ?thesis
      by (simp add: church_encode_loop.simps [of j])
  qed
qed

lemmas no_output_intros = no_output.intros no_output_name_call no_output_church_encode_loop

lemma no_output_pass_by_value:
  "no_output e \<Longrightarrow> no_output a \<Longrightarrow> pass_by_value k e a s = Some (r, t) \<Longrightarrow>
     no_output r \<and> result t = result s"
proof (induction k arbitrary: e a s r t)
  case 0
  then show ?case by simp
next
  case (Suc k)
  note IH = Suc.IH
  from Suc.prems(1) show ?case
  proof cases
    case (no_output_name_call_closure arg self)
    with Suc.prems(3) obtain r1 s1 where
      first: "pass_by_value k self arg s = Some (r1, s1)" and
      rest: "pass_by_value k r1 a s1 = Some (r, t)"
      by (auto split: option.splits)
    from IH [OF no_output_name_call_closure(3,2) first]
    have "no_output r1" and "result s1 = result s"
      by simp_all
    with IH [OF _ Suc.prems(2) rest] show ?thesis
      by simp
  qed (use Suc.prems(2,3) in \<open>auto intro!: no_output_intros simp: church_encode_def Let_def\<close>)
qed

section \<open>More fuel changes no result\<close>

lemma church_decode_mono:
  assumes "k \<le> k'" and "church_decode k n s = Some r"
  shows "church_decode k' n s = Some r"
proof -
  from assms(2) obtain q t where
    run: "pass_by_values k n [church_decode_counter, I, I] (s\<lparr>decoded := 0\<rparr>) = Some (q, t)"
    and r: "r = (decoded t, t)"
    unfolding church_decode_chain by (auto split: option.splits)
  from pass_by_values_mono [OF assms(1) run] r show ?thesis
    unfolding church_decode_chain by simp
qed

lemma scott_decode_mono:
  assumes "k \<le> k'" and "scott_decode k list s = Some t"
  shows "scott_decode k' list s = Some t"
proof -
  from assms(2) obtain q where
    run: "pass_by_values k Y [output_list, list, I, I] s = Some (q, t)"
    unfolding scott_decode_chain by auto
  from pass_by_values_mono [OF assms(1) run] show ?thesis
    unfolding scott_decode_chain by simp
qed

lemma transform_church_decode_mono:
  assumes "k \<le> k'" and "transform_church_decode k es s = Some r"
  shows "transform_church_decode k' es s = Some r"
  using assms(2)
proof (induction es arbitrary: s r)
  case Nil
  then show ?case by simp
next
  case (Cons e es)
  from Cons.prems obtain n s1 ns s2 where
    first: "church_decode k e s = Some (n, s1)" and
    rest: "transform_church_decode k es s1 = Some (ns, s2)" and
    r: "r = (n # ns, s2)"
    by (auto split: option.splits)
  from church_decode_mono [OF assms(1) first] Cons.IH [OF rest] r
  show ?case by simp
qed

lemma run_on_integer_sequence_mono:
  assumes "k \<le> k'" and "run_on_integer_sequence k input program = Some out"
  shows "run_on_integer_sequence k' input program = Some out"
proof -
  let ?l = "name_call program (scott_encode (map church_encode input))"
  let ?s = "\<lparr>decoded = 0, result = []\<rparr>"
  from assms(2) obtain t q where
    decode: "scott_decode k ?l ?s = Some t" and
    numbers: "transform_church_decode k (result t) t = Some (out, q)"
    unfolding run_on_integer_sequence_def by (auto simp: Let_def split: option.splits)
  from scott_decode_mono [OF assms(1) decode]
    transform_church_decode_mono [OF assms(1) numbers]
  show ?thesis
    unfolding run_on_integer_sequence_def by (simp add: Let_def)
qed


lemma funpow_numeral: "(f ^^ numeral k) x = f ((f ^^ pred_numeral k) x)"
  by (simp add: numeral_eq_Suc)

section \<open>Church numerals round trip\<close>

text \<open>
  C2: decoding the Church encoding of \<open>n\<close> returns \<open>n\<close>, for every \<open>n\<close> of the type
  (so for 0 through 100), once the fuel suffices. The call leaves \<open>n\<close> in the
  counter and writes nothing to the output.
\<close>

theorem church_round_trip:
  "\<exists>k. \<forall>fuel\<ge>k. church_decode fuel (church_encode n) s = Some (n, s\<lparr>decoded := n\<rparr>)"
proof -
  have "evaluates (church_encode n) [church_decode_counter, I, I] (s\<lparr>decoded := 0\<rparr>)
      (I, s\<lparr>decoded := n\<rparr>)"
    by (simp add: church_encode_def church_encode_loop_funpow counting_tower)
  from church_decode_enough_fuel [OF this] show ?thesis by simp
qed

theorem church_round_trip_witness:
  "\<exists>k. church_decode k (church_encode 100) \<lparr>decoded = 5, result = []\<rparr>
     = Some (100, \<lparr>decoded = 100, result = []\<rparr>)"
  using church_round_trip [of 100 "\<lparr>decoded = 5, result = []\<rparr>"] by auto

lemma Y_equiv_state_refl: "Y_equiv_state s s"
  by (simp add: Y_equiv_state_def list_all2_refl Y_equiv_refl)

lemma Y_equiv_pass_by_values:
  "Y_equiv e e' \<Longrightarrow> list_all2 Y_equiv as as' \<Longrightarrow> Y_equiv_state s s' \<Longrightarrow>
     rel_option (rel_prod Y_equiv Y_equiv_state)
       (pass_by_values k e as s) (pass_by_values k e' as' s')"
proof (induction as arbitrary: e e' as' s s')
  case Nil
  then show ?case by simp
next
  case (Cons a as)
  from Cons.prems(2) obtain a' as'' where
    as': "as' = a' # as''" and a: "Y_equiv a a'" and rest: "list_all2 Y_equiv as as''"
    by (auto simp: list_all2_Cons1)
  show ?case
    unfolding as' pass_by_values.simps
    by (rule rel_option_bind [OF Y_equiv_pass_by_value [OF Cons.prems(1) a Cons.prems(3)]])
      (rule Cons.IH [OF _ rest])
qed

lemma Y_equiv_church_decode:
  assumes "Y_equiv e e'"
  shows "map_option fst (church_decode fuel e s) = map_option fst (church_decode fuel e' s)"
proof -
  let ?as = "[church_decode_counter, I, I]"
  have "rel_option (rel_prod Y_equiv Y_equiv_state)
      (pass_by_values fuel e ?as (s\<lparr>decoded := 0\<rparr>))
      (pass_by_values fuel e' ?as (s\<lparr>decoded := 0\<rparr>))"
    by (rule Y_equiv_pass_by_values [OF assms _ Y_equiv_state_refl])
      (simp add: Y_equiv_refl)
  then show ?thesis
    unfolding church_decode_chain
    by (cases rule: option.rel_cases) (auto simp: Y_equiv_state_def)
qed

section \<open>Name call and value call\<close>

text \<open>
  C1: the name call \<open>e(a)\<close> is defined for every \<open>e\<close> and \<open>a\<close> and is the closure of
  \<open>operator()\<close>; nothing fails. Value-calling that closure with any argument \<open>u\<close>
  performs \<open>e.pass_by_value(a).pass_by_value(u)\<close>: with one more unit of fuel it is the
  chain of these two value calls, and it returns exactly what the chain returns.
\<close>

theorem name_call_defers:
  "name_call e a = name_call_closure a e
   \<and> pass_by_value (Suc k) (name_call e a) u s = pass_by_values k e [a, u] s
   \<and> (evaluates (name_call e a) [u] s r \<longleftrightarrow> evaluates e [a, u] s r)"
  by (simp add: name_call_def [symmetric]) (simp add: name_call_def split: option.splits)

theorem name_call_defers_witness:
  "pass_by_value (Suc (Suc 0)) (name_call K I) S \<lparr>decoded = 0, result = []\<rparr>
     = Some (I, \<lparr>decoded = 0, result = []\<rparr>)"
  using name_call_defers [of K I "Suc 0" S "\<lparr>decoded = 0, result = []\<rparr>"] by simp

text \<open>
  C10: the name call runs nothing. It takes no fuel and no state, and it is a closure
  also for \<open>omega\<close>, an expression whose value call returns for no amount of fuel. The
  function of \<open>e\<close> runs when the closure is value-called: that value call starts with
  \<open>e.pass_by_value(a)\<close>, so for \<open>omega\<close> it does not return either.
\<close>

theorem name_call_runs_nothing:
  "(\<forall>k x s. pass_by_value k omega x s = None)
   \<and> name_call omega a = name_call_closure a omega
   \<and> (\<forall>k x s. pass_by_value k (name_call omega a) x s = None)
   \<and> pass_by_value (Suc k) (name_call e a) x s =
       (case pass_by_value k e a s of
          None \<Rightarrow> None
        | Some (r, t) \<Rightarrow> pass_by_value k r x t)"
proof -
  have "pass_by_value k (name_call omega a) x s = None" for k x s
    by (cases k) (simp_all add: name_call_def omega_diverges)
  then show ?thesis
    by (simp add: omega_diverges) (simp add: name_call_def)
qed

theorem name_call_runs_nothing_witness:
  "pass_by_value (Suc (Suc (Suc 0))) (name_call omega K) S \<lparr>decoded = 0, result = []\<rparr> = None
   \<and> pass_by_value (Suc (Suc 0)) (name_call I K) S \<lparr>decoded = 0, result = []\<rparr>
       = Some (K_x S, \<lparr>decoded = 0, result = []\<rparr>)"
  using name_call_runs_nothing
    [where a = K and e = I and k = "Suc 0" and x = S and s = "\<lparr>decoded = 0, result = []\<rparr>"]
  by simp

section \<open>Scott lists\<close>

text \<open>
  C3: for every list \<open>xs\<close> of expressions, \<open>scott_decode\<close> on \<open>scott_encode xs\<close> returns
  once the fuel suffices, and it appends to the output one expression for each element of
  \<open>xs\<close>, in order. The expression written for an element is \<open>car\<close> of the remaining list,
  not the element itself; it has the same behaviour as the element: every value call of it
  returns what the same value call of the element returns. For a list of Church-encoded
  naturals, \<open>church_decode\<close> on the expression written for \<open>church_encode n\<close> returns \<open>n\<close>.
\<close>

theorem scott_round_trip:
  "(\<exists>k. \<forall>fuel\<ge>k. scott_decode fuel (scott_encode xs) s =
      Some (s\<lparr>result := result s @ scott_decode_output (scott_encode xs) (length xs)\<rparr>))
   \<and> list_all2 same_behaviour (scott_decode_output (scott_encode xs) (length xs)) xs
   \<and> list_all2 (\<lambda>c n. \<forall>t. \<exists>k. \<forall>fuel\<ge>k. church_decode fuel c t = Some (n, t\<lparr>decoded := n\<rparr>))
       (scott_decode_output (scott_encode (map church_encode ns)) (length ns)) ns"
proof -
  have "list_all2 same_behaviour
      (scott_decode_output (scott_encode (map church_encode ns))
        (length (map church_encode ns))) (map church_encode ns)"
    by (rule scott_decode_output_same_behaviour [OF same_behaviour_refl])
  then have "list_all2 (\<lambda>c n. same_behaviour c (church_encode n))
      (scott_decode_output (scott_encode (map church_encode ns)) (length ns)) ns"
    by (simp add: list_all2_map2)
  then have "list_all2
      (\<lambda>c n. \<forall>t. \<exists>k. \<forall>fuel\<ge>k. church_decode fuel c t = Some (n, t\<lparr>decoded := n\<rparr>))
      (scott_decode_output (scott_encode (map church_encode ns)) (length ns)) ns"
    by (rule list_all2_mono) (blast intro: church_decode_same_behaviour)
  with scott_decode_scott_encode [of xs s]
    scott_decode_output_same_behaviour [OF same_behaviour_refl, of xs]
  show ?thesis by blast
qed

theorem scott_round_trip_witness:
  "\<exists>k. scott_decode k (scott_encode [truth, K]) \<lparr>decoded = 0, result = []\<rparr> =
     Some \<lparr>decoded = 0, result =
       [name_call (scott_encode [truth, K]) car_sel,
        name_call (name_call (scott_encode [truth, K]) cdr_sel) car_sel]\<rparr>"
proof -
  from scott_round_trip [of "[truth, K]" "\<lparr>decoded = 0, result = []\<rparr>" "[]"]
  obtain k where "\<forall>fuel\<ge>k. scott_decode fuel (scott_encode [truth, K]) \<lparr>decoded = 0, result = []\<rparr> =
      Some \<lparr>decoded = 0, result =
        [name_call (scott_encode [truth, K]) car_sel,
         name_call (name_call (scott_encode [truth, K]) cdr_sel) car_sel]\<rparr>"
    by auto
  then show ?thesis by blast
qed

text \<open>
  C5, as the code has it: \<open>empty_list\<close> takes three arguments and returns the second. The
  value call with \<open>f\<close> returns a closure, the value call of that closure with \<open>x\<close> returns
  a closure that holds \<open>x\<close>, and only the value call of that one, with any \<open>y\<close>, returns
  \<open>x\<close>.
\<close>

theorem empty_list_three_arguments:
  "pass_by_value (Suc k) empty_list f s = Some (empty_list_f, s)
   \<and> pass_by_value (Suc k) empty_list_f x s = Some (empty_list_f_x x, s)
   \<and> pass_by_value (Suc k) (empty_list_f_x x) y s = Some (x, s)
   \<and> pass_by_values (Suc k) empty_list [f, x, y] s = Some (x, s)"
  by simp

theorem empty_list_three_arguments_witness:
  "pass_by_values (Suc 0) empty_list [I, K, S] \<lparr>decoded = 0, result = []\<rparr>
     = Some (K, \<lparr>decoded = 0, result = []\<rparr>)"
  using empty_list_three_arguments [of 0 I "\<lparr>decoded = 0, result = []\<rparr>" K S] by simp

text \<open>
  C5 as stated fails: value-calling \<open>empty_list\<close> with \<open>I\<close> and the result with \<open>truth\<close>
  returns the closure \<open>empty_list_f_x truth\<close>, which is not \<open>truth\<close> and does not behave
  like it.
\<close>

theorem empty_list_two_arguments_counterexample:
  "pass_by_value 1 empty_list I \<lparr>decoded = 0, result = []\<rparr>
     = Some (empty_list_f, \<lparr>decoded = 0, result = []\<rparr>)
   \<and> pass_by_value 1 empty_list_f truth \<lparr>decoded = 0, result = []\<rparr>
     = Some (empty_list_f_x truth, \<lparr>decoded = 0, result = []\<rparr>)
   \<and> empty_list_f_x truth \<noteq> truth
   \<and> \<not> same_behaviour (empty_list_f_x truth) truth"
proof -
  have "evaluates (empty_list_f_x truth) [I] \<lparr>decoded = 0, result = []\<rparr>
      (truth, \<lparr>decoded = 0, result = []\<rparr>)"
    by simp
  moreover have "\<not> evaluates truth [I] \<lparr>decoded = 0, result = []\<rparr>
      (truth, \<lparr>decoded = 0, result = []\<rparr>)"
    by simp
  ultimately have "\<not> same_behaviour (empty_list_f_x truth) truth"
    unfolding same_behaviour_def by blast
  then show ?thesis by simp
qed

text \<open>
  C7: \<open>is_empty\<close> applied to \<open>empty_list\<close> selects the first of two further arguments, as
  \<open>truth\<close> does, and applied to \<open>cons(a)(b)\<close> it selects the second, as \<open>falsity\<close> does,
  for all \<open>a\<close> and \<open>b\<close>; five units of fuel suffice.
\<close>

theorem is_empty_selects:
  assumes "5 \<le> fuel"
  shows "pass_by_values fuel (name_call is_empty empty_list) [x, y] s = Some (x, s)
    \<and> pass_by_values fuel truth [x, y] s = Some (x, s)
    \<and> pass_by_values fuel (name_call is_empty (name_call (name_call cons a) b)) [x, y] s
        = Some (y, s)
    \<and> pass_by_values fuel falsity [x, y] s = Some (y, s)"
proof -
  have "pass_by_values 5 (name_call is_empty empty_list) [x, y] s = Some (x, s)"
    and "pass_by_values 5 truth [x, y] s = Some (x, s)"
    and "pass_by_values 5 (name_call is_empty (name_call (name_call cons a) b)) [x, y] s
        = Some (y, s)"
    and "pass_by_values 5 falsity [x, y] s = Some (y, s)"
    by (simp_all add: eval_nat_numeral name_call_def)
  then show ?thesis
    by (intro conjI pass_by_values_mono [OF assms])
qed

theorem is_empty_selects_witness:
  "(5::nat) \<le> 5
   \<and> pass_by_values 5 (name_call is_empty empty_list) [K, S] \<lparr>decoded = 0, result = []\<rparr>
       = Some (K, \<lparr>decoded = 0, result = []\<rparr>)
   \<and> pass_by_values 5 (name_call is_empty (name_call (name_call cons I) Y)) [K, S]
       \<lparr>decoded = 0, result = []\<rparr> = Some (S, \<lparr>decoded = 0, result = []\<rparr>)"
  using is_empty_selects [of 5 K S "\<lparr>decoded = 0, result = []\<rparr>" I Y] by simp

lemma no_output_pass_by_values:
  "no_output e \<Longrightarrow> list_all no_output as \<Longrightarrow> pass_by_values k e as s = Some (r, t) \<Longrightarrow>
     no_output r \<and> result t = result s"
proof (induction as arbitrary: e s)
  case Nil
  then show ?case by simp
next
  case (Cons a as)
  from Cons.prems(3) obtain r1 s1 where
    first: "pass_by_value k e a s = Some (r1, s1)" and
    rest: "pass_by_values k r1 as s1 = Some (r, t)"
    by (auto split: option.splits)
  from Cons.prems(2) have a: "no_output a" and as: "list_all no_output as"
    by simp_all
  from no_output_pass_by_value [OF Cons.prems(1) a first]
  have "no_output r1" and "result s1 = result s"
    by simp_all
  with Cons.IH [OF _ as rest] show ?case
    by simp
qed

section \<open>The fixed-point combinator\<close>

text \<open>
  C4: the value call of \<open>Y\<close> with any \<open>f\<close> returns at once, with the deferred
  application \<open>f(x(x))\<close>; the name call \<open>Y(f)\<close> is a closure in any case. Value-calling
  \<open>Y(f)\<close> with \<open>x\<close> and value-calling \<open>f(Y(f))\<close> with \<open>x\<close> (with one unit of fuel less)
  either both run out of fuel or both return, with states and results related by
  \<open>Y_equiv\<close>. Expressions related by \<open>Y_equiv\<close> cannot be told apart: value calls of
  related expressions on related arguments, with the same fuel, again both run out of fuel
  or return related results, and \<open>church_decode\<close> returns the same number for both.
\<close>

theorem Y_fixed_point:
  "pass_by_value (Suc k) Y f s = Some (name_call f (name_call (Y_f f) (Y_f f)), s)
   \<and> rel_option (rel_prod Y_equiv Y_equiv_state)
       (pass_by_value (Suc (Suc k)) (name_call Y f) x s)
       (pass_by_value (Suc k) (name_call f (name_call Y f)) x s)
   \<and> (Y_equiv e e' \<longrightarrow> Y_equiv a a' \<longrightarrow> Y_equiv_state t t' \<longrightarrow>
       rel_option (rel_prod Y_equiv Y_equiv_state)
         (pass_by_value j e a t) (pass_by_value j e' a' t'))
   \<and> (Y_equiv e e' \<longrightarrow>
       map_option fst (church_decode j e t) = map_option fst (church_decode j e' t))"
proof -
  let ?w = "name_call (Y_f f) (Y_f f)"
  have unfold: "pass_by_value (Suc (Suc k)) (name_call Y f) x s =
      pass_by_value (Suc k) (name_call f ?w) x s"
    by (simp add: name_call_def Let_def)
  have "Y_equiv (name_call f ?w) (name_call f (name_call Y f))"
    by (intro Y_equiv_name_call equiv_unfold Y_equiv_refl)
  from Y_equiv_pass_by_value [OF this Y_equiv_refl Y_equiv_state_refl]
  have "rel_option (rel_prod Y_equiv Y_equiv_state)
      (pass_by_value (Suc (Suc k)) (name_call Y f) x s)
      (pass_by_value (Suc k) (name_call f (name_call Y f)) x s)"
    unfolding unfold .
  then show ?thesis
    by (simp add: Let_def Y_equiv_pass_by_value Y_equiv_church_decode)
qed

theorem Y_fixed_point_witness:
  "pass_by_value (Suc (Suc (Suc 0))) (name_call Y K) I \<lparr>decoded = 0, result = []\<rparr>
     = Some (name_call (Y_f K) (Y_f K), \<lparr>decoded = 0, result = []\<rparr>)
   \<and> pass_by_value (Suc (Suc 0)) (name_call K (name_call Y K)) I \<lparr>decoded = 0, result = []\<rparr>
     = Some (name_call Y K, \<lparr>decoded = 0, result = []\<rparr>)
   \<and> Y_equiv (name_call (Y_f K) (Y_f K)) (name_call Y K)
   \<and> map_option fst (church_decode 9 (name_call (Y_f K) (Y_f K)) \<lparr>decoded = 0, result = []\<rparr>)
     = map_option fst (church_decode 9 (name_call Y K) \<lparr>decoded = 0, result = []\<rparr>)"
proof -
  have left: "pass_by_value (Suc (Suc (Suc 0))) (name_call Y K) I \<lparr>decoded = 0, result = []\<rparr>
      = Some (name_call (Y_f K) (Y_f K), \<lparr>decoded = 0, result = []\<rparr>)"
    by (simp add: name_call_def Let_def)
  have right: "pass_by_value (Suc (Suc 0)) (name_call K (name_call Y K)) I
      \<lparr>decoded = 0, result = []\<rparr> = Some (name_call Y K, \<lparr>decoded = 0, result = []\<rparr>)"
    by (simp add: name_call_def)
  from Y_fixed_point [of "Suc 0" K "\<lparr>decoded = 0, result = []\<rparr>" I]
  have "rel_option (rel_prod Y_equiv Y_equiv_state)
      (pass_by_value (Suc (Suc (Suc 0))) (name_call Y K) I \<lparr>decoded = 0, result = []\<rparr>)
      (pass_by_value (Suc (Suc 0)) (name_call K (name_call Y K)) I \<lparr>decoded = 0, result = []\<rparr>)"
    by blast
  then have related: "Y_equiv (name_call (Y_f K) (Y_f K)) (name_call Y K)"
    unfolding left right by simp
  with Y_fixed_point
    [where e = "name_call (Y_f K) (Y_f K)" and e' = "name_call Y K" and j = 9
      and t = "\<lparr>decoded = 0, result = []\<rparr>"]
  have "map_option fst (church_decode 9 (name_call (Y_f K) (Y_f K)) \<lparr>decoded = 0, result = []\<rparr>)
      = map_option fst (church_decode 9 (name_call Y K) \<lparr>decoded = 0, result = []\<rparr>)"
    by blast
  with left right related show ?thesis by blast
qed

section \<open>Subtraction\<close>

text \<open>
  C6: \<open>sub(church_encode(5))(church_encode(2))\<close> decodes to 3. The predecessor of Church 0
  decodes to 0, and \<open>is_zero\<close> of it selects the first of two arguments. For all \<open>n \<le> m\<close>
  (so for all \<open>n < m\<close>), \<open>sub(church_encode(n))(church_encode(m))\<close> is zero: \<open>is_zero\<close> of it
  selects the first of two arguments, it decodes to 0, and its value calls with \<open>f\<close>, \<open>x\<close>
  and one more argument return what those of \<open>church_encode(0)\<close> return.
\<close>

theorem sub_saturates_at_zero:
  "(\<exists>k. \<forall>fuel\<ge>k. church_decode fuel
        (name_call (name_call sub (church_encode 5)) (church_encode 2)) s
      = Some (3, s\<lparr>decoded := 3\<rparr>))
   \<and> (\<exists>k. \<forall>fuel\<ge>k. church_decode fuel (name_call pred (church_encode 0)) s
      = Some (0, s\<lparr>decoded := 0\<rparr>))
   \<and> (\<exists>k. \<forall>fuel\<ge>k. pass_by_values fuel
        (name_call is_zero (name_call pred (church_encode 0))) [a, b] s = Some (a, s))
   \<and> (n \<le> m \<longrightarrow>
        (\<exists>k. \<forall>fuel\<ge>k. pass_by_values fuel
           (name_call is_zero (name_call (name_call sub (church_encode n)) (church_encode m)))
           [a, b] s = Some (a, s))
      \<and> (\<exists>k. \<forall>fuel\<ge>k. church_decode fuel
           (name_call (name_call sub (church_encode n)) (church_encode m)) s
         = Some (0, s\<lparr>decoded := 0\<rparr>))
      \<and> (\<forall>f x u r.
           evaluates (name_call (name_call sub (church_encode n)) (church_encode m)) [f, x, u] s r
           \<longleftrightarrow> evaluates (church_encode 0) [f, x, u] s r))"
proof -
  have "evaluates (name_call (name_call sub (church_encode 5)) (church_encode 2))
      [church_decode_counter, I, I] (s\<lparr>decoded := 0\<rparr>) (I, s\<lparr>decoded := 3\<rparr>)"
    by (simp add: church_encode_def church_encode_loop_funpow funpow_numeral)
  from church_decode_enough_fuel [OF this]
  have five_two: "\<exists>k. \<forall>fuel\<ge>k. church_decode fuel
      (name_call (name_call sub (church_encode 5)) (church_encode 2)) s
      = Some (3, s\<lparr>decoded := 3\<rparr>)"
    by simp
  have "evaluates (name_call pred (church_encode 0))
      [church_decode_counter, I, I] (s\<lparr>decoded := 0\<rparr>) (I, s\<lparr>decoded := 0\<rparr>)"
    by (simp add: church_encode_def church_encode_loop_funpow)
  from church_decode_enough_fuel [OF this]
  have pred_zero: "\<exists>k. \<forall>fuel\<ge>k. church_decode fuel (name_call pred (church_encode 0)) s
      = Some (0, s\<lparr>decoded := 0\<rparr>)"
    by simp
  have "evaluates (name_call is_zero (name_call pred (church_encode 0))) [a, b] s (a, s)"
    by (simp add: church_encode_def church_encode_loop_funpow)
  then have is_zero_pred: "\<exists>k. \<forall>fuel\<ge>k. pass_by_values fuel
      (name_call is_zero (name_call pred (church_encode 0))) [a, b] s = Some (a, s)"
    by (simp only: evaluates_enough_fuel)
  have below: "(\<exists>k. \<forall>fuel\<ge>k. pass_by_values fuel
           (name_call is_zero (name_call (name_call sub (church_encode n)) (church_encode m)))
           [a, b] s = Some (a, s))
      \<and> (\<exists>k. \<forall>fuel\<ge>k. church_decode fuel
           (name_call (name_call sub (church_encode n)) (church_encode m)) s
         = Some (0, s\<lparr>decoded := 0\<rparr>))
      \<and> (\<forall>f x u r.
           evaluates (name_call (name_call sub (church_encode n)) (church_encode m)) [f, x, u] s r
           \<longleftrightarrow> evaluates (church_encode 0) [f, x, u] s r)"
    if le: "n \<le> m"
  proof (intro conjI allI)
    have "evaluates
        (name_call is_zero (name_call (name_call sub (church_encode n)) (church_encode m)))
        [a, b] s (a, s)"
      by (simp only: is_zero_sub [OF le])
    then show "\<exists>k. \<forall>fuel\<ge>k. pass_by_values fuel
        (name_call is_zero (name_call (name_call sub (church_encode n)) (church_encode m)))
        [a, b] s = Some (a, s)"
      by (simp only: evaluates_enough_fuel)
  next
    have "evaluates (name_call (name_call sub (church_encode n)) (church_encode m))
        [church_decode_counter, I, I] (s\<lparr>decoded := 0\<rparr>) (I, s\<lparr>decoded := 0\<rparr>)"
      by (simp only: sub_saturates [OF le]) simp
    from church_decode_enough_fuel [OF this]
    show "\<exists>k. \<forall>fuel\<ge>k. church_decode fuel
        (name_call (name_call sub (church_encode n)) (church_encode m)) s
        = Some (0, s\<lparr>decoded := 0\<rparr>)"
      by simp
  next
    fix f x u r
    have "evaluates (church_encode 0) [f, x, u] s r \<longleftrightarrow> evaluates x [u] s r"
      by (simp add: church_encode_def church_encode_loop_funpow)
    then show "evaluates (name_call (name_call sub (church_encode n)) (church_encode m))
        [f, x, u] s r \<longleftrightarrow> evaluates (church_encode 0) [f, x, u] s r"
      by (simp only: sub_saturates [OF le])
  qed
  from five_two pred_zero is_zero_pred below show ?thesis
    by blast
qed

theorem sub_saturates_at_zero_witness:
  "(2::size_t) \<le> 5
   \<and> (\<exists>k. pass_by_values k
        (name_call is_zero (name_call (name_call sub (church_encode 2)) (church_encode 5)))
        [K, S] \<lparr>decoded = 0, result = []\<rparr> = Some (K, \<lparr>decoded = 0, result = []\<rparr>))"
proof -
  have le: "(2::size_t) \<le> 5"
    by simp
  with sub_saturates_at_zero [of "\<lparr>decoded = 0, result = []\<rparr>" K S 2 5]
  obtain k where "\<forall>fuel\<ge>k. pass_by_values fuel
      (name_call is_zero (name_call (name_call sub (church_encode 2)) (church_encode 5)))
      [K, S] \<lparr>decoded = 0, result = []\<rparr> = Some (K, \<lparr>decoded = 0, result = []\<rparr>)"
    by blast
  with le show ?thesis by blast
qed

section \<open>The pipeline\<close>

text \<open>
  C8: with the input \<open>[3, 1, 4]\<close> and the program \<open>I\<close>, \<open>run_on_integer_sequence\<close> writes
  \<open>[3, 1, 4]\<close>; 14 units of fuel suffice.
\<close>

theorem identity_program:
  assumes "14 \<le> fuel"
  shows "run_on_integer_sequence fuel [3, 1, 4] I = Some [3, 1, 4]"
proof -
  have "run_on_integer_sequence 14 [3, 1, 4] I = Some [3, 1, 4]"
    by code_simp
  from run_on_integer_sequence_mono [OF assms this] show ?thesis .
qed

theorem identity_program_witness:
  "(14::nat) \<le> 14 \<and> run_on_integer_sequence 14 [3, 1, 4] I = Some [3, 1, 4]"
  using identity_program [of 14] by simp

section \<open>The counter of church_decode\<close>

text \<open>
  C9: \<open>church_decode\<close> starts its counter at 0 in every call, so the number it returns
  does not depend on the state it is called in, and a second call on the same expression,
  in the state the first one left, returns the same number. Expressions are values, so
  the argument is the same after the call. When the argument holds no lambda of
  \<open>scott_decode\<close>, the call changes nothing but its counter.
\<close>

theorem church_decode_counter_is_local:
  "map_option fst (church_decode fuel e s) = map_option fst (church_decode fuel e t)
   \<and> (church_decode fuel e s = Some (n, s1) \<longrightarrow>
        (\<exists>s2. church_decode fuel e s1 = Some (n, s2)))
   \<and> (no_output e \<longrightarrow> church_decode fuel e s = Some (n, s1) \<longrightarrow> s1 = s\<lparr>decoded := n\<rparr>)"
proof (intro conjI impI)
  show "map_option fst (church_decode fuel e s) = map_option fst (church_decode fuel e t)"
    by (rule church_decode_fresh_counter)
next
  assume "church_decode fuel e s = Some (n, s1)"
  then have "map_option fst (church_decode fuel e s1) = Some n"
    using church_decode_fresh_counter [of fuel e s1 s] by simp
  then show "\<exists>s2. church_decode fuel e s1 = Some (n, s2)"
    by auto
next
  assume pure: "no_output e" and call: "church_decode fuel e s = Some (n, s1)"
  from call obtain q where
    run: "pass_by_values fuel e [church_decode_counter, I, I] (s\<lparr>decoded := 0\<rparr>) = Some (q, s1)"
    and n: "n = decoded s1"
    unfolding church_decode_chain by (auto split: option.splits)
  have "list_all no_output [church_decode_counter, I, I]"
    by (simp add: no_output.intros)
  from no_output_pass_by_values [OF pure this run] have "result s1 = result s"
    by simp
  with n show "s1 = s\<lparr>decoded := n\<rparr>"
    by simp
qed

theorem church_decode_counter_is_local_witness:
  "church_decode 4 (church_encode 2) \<lparr>decoded = 7, result = [I]\<rparr>
     = Some (2, \<lparr>decoded = 2, result = [I]\<rparr>)
   \<and> (\<exists>s2. church_decode 4 (church_encode 2) \<lparr>decoded = 2, result = [I]\<rparr> = Some (2, s2))
   \<and> \<lparr>decoded = 2, result = [I]\<rparr> = \<lparr>decoded = 7, result = [I]\<rparr>\<lparr>decoded := 2\<rparr>"
proof -
  have first: "church_decode 4 (church_encode 2) \<lparr>decoded = 7, result = [I]\<rparr>
      = Some (2, \<lparr>decoded = 2, result = [I]\<rparr>)"
    by code_simp
  have "no_output (church_encode 2)"
    unfolding church_encode_def by (rule no_output_church_encode_n)
  with first church_decode_counter_is_local
    [of 4 "church_encode 2" "\<lparr>decoded = 7, result = [I]\<rparr>" _ 2 "\<lparr>decoded = 2, result = [I]\<rparr>"]
  show ?thesis by blast
qed

end
